theory Spec2Isabelle
  imports Main "HOL-Library.Monad_Syntax"
begin

section \<open>Records and their order\<close>

text \<open>
  The package stores values of the interface \<open>Record\<close>, whose one method
  \<open>Less(than Record) bool\<close> gives the order; two records are equal for the tree when
  neither is less than the other.  The package presupposes that \<open>Less\<close> is a strict
  order in which being unordered is transitive (a strict weak order).  Every such order
  compares a key that the record carries, so a record is modelled as a key of a linearly
  ordered type together with a payload that the order does not look at: two records with
  the same key are equal for the tree and can still be told apart.

  A \<open>Record\<close> value of the source may be \<open>nil\<close>; where the source passes or returns
  a record that may be \<open>nil\<close> the model has \<open>'r option\<close> with \<open>None\<close> for \<open>nil\<close>.
\<close>

type_synonym ('k, 'v) Record = "'k \<times> 'v"

definition Less :: "('k::linorder, 'v) Record \<Rightarrow> ('k, 'v) Record \<Rightarrow> bool" where
  "Less a b = (fst a < fst b)"

text \<open>Equality as the tree sees it: \<open>!a.Less(b) && !b.Less(a)\<close>.\<close>

definition equalRecords :: "('k::linorder, 'v) Record \<Rightarrow> ('k, 'v) Record \<Rightarrow> bool" where
  "equalRecords a b = (\<not> Less a b \<and> \<not> Less b a)"

section \<open>Slice helpers\<close>

text \<open>
  \<open>records\<close> is \<open>[]Record\<close> and \<open>children\<close> is \<open>[]*node\<close>; the source has the
  same four helpers for each, with the same bodies, so the model has one polymorphic
  definition of each.  No two nodes ever share a backing array (every slice that a node
  receives is filled by \<open>append\<close> into the node's own array), so a slice is modelled by
  the list of its elements.  An index out of range panics in the source: the helpers
  return \<open>None\<close> there.  Clearing the discarded tail of a backing array has no effect on
  the elements of any slice and is not modelled.
\<close>

definition insertAt :: "'a list \<Rightarrow> nat \<Rightarrow> 'a \<Rightarrow> 'a list option" where
  "insertAt xs index x =
     (if index \<le> length xs then Some (take index xs @ x # drop index xs) else None)"

definition removeAt :: "'a list \<Rightarrow> nat \<Rightarrow> ('a \<times> 'a list) option" where
  "removeAt xs index =
     (if index < length xs then Some (xs ! index, take index xs @ drop (Suc index) xs)
      else None)"

definition pop :: "'a list \<Rightarrow> ('a \<times> 'a list) option" where
  "pop xs = (if xs = [] then None else Some (last xs, butlast xs))"

text \<open>\<open>truncate\<close> (the name \<open>truncate\<close> is taken by the record package).\<close>

definition slice_truncate :: "'a list \<Rightarrow> nat \<Rightarrow> 'a list option" where
  "slice_truncate xs index = (if index \<le> length xs then Some (take index xs) else None)"

text \<open>
  \<open>sort.Search(n, f)\<close> of the Go standard library: the binary search
  \<^verbatim>\<open>i, j := 0, n; for i < j { h := (i+j)/2; if !f(h) { i = h+1 } else { j = h } }; return i\<close>.
\<close>

function search_loop :: "nat \<Rightarrow> nat \<Rightarrow> (nat \<Rightarrow> bool) \<Rightarrow> nat" where
  "search_loop i j f =
     (if i < j then
        (let h = (i + j) div 2 in
         if \<not> f h then search_loop (h + 1) j f else search_loop i h f)
      else i)"
  by pat_completeness auto
termination
  by (relation "measure (\<lambda>(i, j, f). j - i)") auto

declare search_loop.simps [simp del]

definition sort_Search :: "nat \<Rightarrow> (nat \<Rightarrow> bool) \<Rightarrow> nat" where
  "sort_Search n f = search_loop 0 n f"

text \<open>
  \<open>records.find\<close>: the first index whose record is greater than \<open>record\<close>, stepped
  back by one when the record before it is not less than \<open>record\<close>.
\<close>

definition find :: "('k::linorder, 'v) Record list \<Rightarrow> ('k, 'v) Record \<Rightarrow> nat \<times> bool" where
  "find recordsSlice record =
     (let insertionPoint =
            sort_Search (length recordsSlice) (\<lambda>currentIndex. Less record (recordsSlice ! currentIndex))
      in if insertionPoint > 0 \<and> \<not> Less (recordsSlice ! (insertionPoint - 1)) record
         then (insertionPoint - 1, True)
         else (insertionPoint, False))"

section \<open>Binary search on ordered records\<close>

lemma search_loop_bounds:
  "i \<le> j \<Longrightarrow> i \<le> search_loop i j f \<and> search_loop i j f \<le> j"
proof (induction i j f rule: search_loop.induct)
  case (1 i j f)
  show ?case
  proof (cases "i < j")
    case False
    with "1.prems" show ?thesis by (simp add: search_loop.simps)
  next
    case True
    let ?h = "(i + j) div 2"
    from True have h: "i \<le> ?h" "?h < j" by auto
    show ?thesis
    proof (cases "f ?h")
      case True
      with "1.IH"(2)[of ?h] h \<open>i < j\<close> show ?thesis
        by (subst search_loop.simps, subst (2) search_loop.simps) (auto simp: Let_def)
    next
      case False
      with "1.IH"(1)[of ?h] h \<open>i < j\<close> show ?thesis
        by (subst search_loop.simps, subst (2) search_loop.simps) (auto simp: Let_def)
    qed
  qed
qed

text \<open>
  On a predicate that is monotone between the bounds, the loop returns the first index
  where it holds.
\<close>

lemma search_loop_first:
  assumes "i \<le> j"
    and "\<And>a b. i \<le> a \<Longrightarrow> a \<le> b \<Longrightarrow> b < j \<Longrightarrow> f a \<Longrightarrow> f b"
  shows "(\<forall>a. i \<le> a \<and> a < search_loop i j f \<longrightarrow> \<not> f a) \<and>
         (search_loop i j f < j \<longrightarrow> f (search_loop i j f))"
  using assms
proof (induction i j f rule: search_loop.induct)
  case (1 i j f)
  show ?case
  proof (cases "i < j")
    case False
    with "1.prems" show ?thesis by (auto simp: search_loop.simps)
  next
    case True
    let ?h = "(i + j) div 2"
    from True have h: "i \<le> ?h" "?h < j" by auto
    show ?thesis
    proof (cases "f ?h")
      case fh: True
      have eq: "search_loop i j f = search_loop i ?h f"
        using True fh by (subst search_loop.simps) (simp add: Let_def)
      have mono: "\<And>a b. i \<le> a \<Longrightarrow> a \<le> b \<Longrightarrow> b < ?h \<Longrightarrow> f a \<Longrightarrow> f b"
        using "1.prems"(2) h by (meson less_trans)
      from "1.IH"(2)[OF True refl _ h(1) mono] fh
      have IH: "(\<forall>a. i \<le> a \<and> a < search_loop i ?h f \<longrightarrow> \<not> f a) \<and>
                (search_loop i ?h f < ?h \<longrightarrow> f (search_loop i ?h f))"
        by simp
      have le: "search_loop i ?h f \<le> ?h" using search_loop_bounds[OF h(1)] by simp
      show ?thesis unfolding eq using IH le fh
        by (metis le_neq_implies_less)
    next
      case nfh: False
      have eq: "search_loop i j f = search_loop (?h + 1) j f"
        using True nfh by (subst search_loop.simps) (simp add: Let_def)
      have mono: "\<And>a b. ?h + 1 \<le> a \<Longrightarrow> a \<le> b \<Longrightarrow> b < j \<Longrightarrow> f a \<Longrightarrow> f b"
        using "1.prems"(2) h by (meson le_trans le_add1 order.trans)
      have hj: "?h + 1 \<le> j" using h by simp
      from "1.IH"(1)[OF True refl nfh hj mono]
      have IH: "(\<forall>a. ?h + 1 \<le> a \<and> a < search_loop (?h + 1) j f \<longrightarrow> \<not> f a) \<and>
                (search_loop (?h + 1) j f < j \<longrightarrow> f (search_loop (?h + 1) j f))"
        by simp
      have below: "\<And>a. i \<le> a \<Longrightarrow> a \<le> ?h \<Longrightarrow> \<not> f a"
        using "1.prems"(2) nfh h by blast
      show ?thesis unfolding eq using IH below
        by (metis Suc_eq_plus1 not_less_eq_eq)
    qed
  qed
qed

lemma sort_Search_sorted:
  fixes r :: "('k::linorder, 'v) Record"
  assumes "sorted_wrt Less rs"
  shows "sort_Search (length rs) (\<lambda>i. Less r (rs ! i)) \<le> length rs" 
    and "\<And>j. j < sort_Search (length rs) (\<lambda>i. Less r (rs ! i)) \<Longrightarrow> \<not> Less r (rs ! j)"
    and "\<And>j. sort_Search (length rs) (\<lambda>i. Less r (rs ! i)) \<le> j \<Longrightarrow> j < length rs \<Longrightarrow> Less r (rs ! j)"
proof -
  let ?f = "\<lambda>i. Less r (rs ! i)"
  let ?ip = "sort_Search (length rs) ?f"
  have mono: "\<And>a b. 0 \<le> a \<Longrightarrow> a \<le> b \<Longrightarrow> b < length rs \<Longrightarrow> ?f a \<Longrightarrow> ?f b"
  proof -
    fix a b assume ab: "a \<le> b" "b < length rs" "?f a"
    show "?f b"
    proof (cases "a = b")
      case True with ab show ?thesis by simp
    next
      case False
      with ab have "Less (rs ! a) (rs ! b)"
        using assms(1) by (simp add: sorted_wrt_iff_nth_less)
      with ab(3) show ?thesis by (auto simp: Less_def)
    qed
  qed
  from search_loop_first[of 0 "length rs" ?f, OF _ mono]
  have first: "(\<forall>a. a < ?ip \<longrightarrow> \<not> ?f a) \<and> (?ip < length rs \<longrightarrow> ?f ?ip)"
    by (simp add: sort_Search_def)
  show le: "?ip \<le> length rs"
    using search_loop_bounds[of 0 "length rs" ?f] by (simp add: sort_Search_def)
  show "\<And>j. j < ?ip \<Longrightarrow> \<not> Less r (rs ! j)" using first by blast
  show "\<And>j. ?ip \<le> j \<Longrightarrow> j < length rs \<Longrightarrow> Less r (rs ! j)"
    using first mono by (metis le0 le_less_trans)
qed

lemma find_sorted:
  assumes "sorted_wrt Less rs" and "find rs r = (i, found)"
  shows "i \<le> length rs"
    and "\<And>j. j < i \<Longrightarrow> Less (rs ! j) r"
    and "found \<Longrightarrow> i < length rs \<and> equalRecords (rs ! i) r"
    and "\<And>j. \<not> found \<Longrightarrow> j \<ge> i \<Longrightarrow> j < length rs \<Longrightarrow> Less r (rs ! j)"
    and "\<And>j. j > i \<Longrightarrow> j < length rs \<Longrightarrow> Less r (rs ! j)"
proof -
  let ?ip = "sort_Search (length rs) (\<lambda>i. Less r (rs ! i))"
  note S = sort_Search_sorted[OF assms(1), where r = r]
  have nth: "\<And>a b. a < b \<Longrightarrow> b < length rs \<Longrightarrow> fst (rs ! a) < fst (rs ! b)"
    using assms(1) by (simp add: sorted_wrt_iff_nth_less Less_def)
  show "i \<le> length rs" using assms(2) S(1)
    by (auto simp: find_def Let_def split: if_splits)
  show "\<And>j. j < i \<Longrightarrow> Less (rs ! j) r"
  proof -
    fix j assume j: "j < i"
    show "Less (rs ! j) r"
    proof (cases found)
      case True
      then have i: "i = ?ip - 1" "?ip > 0" "\<not> Less (rs ! i) r"
        using assms(2) by (auto simp: find_def Let_def split: if_splits)
      have "\<not> Less r (rs ! i)" using S(2)[of i] i by simp
      moreover have "fst (rs ! j) < fst (rs ! i)" using nth[of j i] j i S(1) by simp
      ultimately show ?thesis using i(3) by (auto simp: Less_def)
    next
      case False
      then have i: "i = ?ip" "?ip = 0 \<or> Less (rs ! (?ip - 1)) r"
        using assms(2) by (auto simp: find_def Let_def split: if_splits)
      with j have l: "Less (rs ! (i - 1)) r" by auto
      show ?thesis
      proof (cases "j = i - 1")
        case True with l show ?thesis by simp
      next
        case False
        then have "fst (rs ! j) < fst (rs ! (i - 1))" using nth[of j "i - 1"] j i S(1) by simp
        with l show ?thesis by (auto simp: Less_def)
      qed
    qed
  qed
  show "found \<Longrightarrow> i < length rs \<and> equalRecords (rs ! i) r"
  proof -
    assume found
    then have i: "i = ?ip - 1" "?ip > 0" "\<not> Less (rs ! i) r"
      using assms(2) by (auto simp: find_def Let_def split: if_splits)
    have "\<not> Less r (rs ! i)" using S(2)[of i] i by simp
    with i S(1) show ?thesis by (auto simp: equalRecords_def)
  qed
  show "\<And>j. \<not> found \<Longrightarrow> j \<ge> i \<Longrightarrow> j < length rs \<Longrightarrow> Less r (rs ! j)"
    using assms(2) S(3) by (auto simp: find_def Let_def split: if_splits)
  show "\<And>j. j > i \<Longrightarrow> j < length rs \<Longrightarrow> Less r (rs ! j)"
    using assms(2) S(3) by (auto simp: find_def Let_def split: if_splits)
qed


subsection \<open>The index and the flag that find returns\<close>

text \<open>
  Claim C3, as stated, places the record equal to \<open>r\<close> one position before the returned
  index.  The source returns \<open>insertionPoint - 1\<close> when it finds an equal record, so the
  equal record stands at the returned index itself: in \<open>[1, 2, 3]\<close> the search for key
  \<open>2\<close> returns index \<open>1\<close> with \<open>found\<close>, and the record before it has key \<open>1\<close>.
\<close>

theorem find_equal_before_index_counterexample:
  "sorted_wrt Less [(1::nat, ''a''), (2, ''b''), (3, ''c'')] \<and>
   find [(1::nat, ''a''), (2, ''b''), (3, ''c'')] (2, ''x'') = (1, True) \<and>
   \<not> equalRecords ([(1::nat, ''a''), (2, ''b''), (3, ''c'')] ! (1 - 1)) (2, ''x'')"
  by (simp add: find_def sort_Search_def search_loop.simps Let_def Less_def equalRecords_def)

text \<open>
  Claim C3, amended: on strictly ordered records \<open>find\<close> returns the first index whose
  record is not less than \<open>r\<close> (the length when there is none), and \<open>found\<close> holds
  exactly when the record at the returned index is equal to \<open>r\<close>.
\<close>

theorem find_insertion_index:
  assumes "sorted_wrt Less rs" and "find rs r = (i, found)"
  shows "i \<le> length rs \<and> (\<forall>j<i. Less (rs ! j) r) \<and>
         (i < length rs \<longrightarrow> \<not> Less (rs ! i) r) \<and>
         (found \<longleftrightarrow> (i < length rs \<and> equalRecords (rs ! i) r))"
proof -
  note F = find_sorted[OF assms]
  have "i < length rs \<Longrightarrow> \<not> Less (rs ! i) r"
  proof (cases found)
    case True
    with F(3) show ?thesis by (simp add: equalRecords_def)
  next
    case False
    assume "i < length rs"
    with F(4)[OF False, of i] show ?thesis by (auto simp: Less_def)
  qed
  moreover have "found \<longleftrightarrow> (i < length rs \<and> equalRecords (rs ! i) r)"
    using F(3) F(4)[of i] by (auto simp: equalRecords_def)
  ultimately show ?thesis using F(1,2) by blast
qed

theorem find_insertion_index_witness:
  "sorted_wrt Less [(1::nat, ''a''), (2, ''b''), (3, ''c'')] \<and>
   find [(1::nat, ''a''), (2, ''b''), (3, ''c'')] (2, ''x'') = (1, True) \<and>
   Less ([(1::nat, ''a''), (2, ''b''), (3, ''c'')] ! 0) (2, ''x'') \<and>
   equalRecords ([(1::nat, ''a''), (2, ''b''), (3, ''c'')] ! 1) (2, ''x'')"
proof -
  have s: "sorted_wrt Less [(1::nat, ''a''), (2, ''b''), (3, ''c'')]"
    by (simp add: Less_def)
  have f: "find [(1::nat, ''a''), (2, ''b''), (3, ''c'')] (2, ''x'') = (1, True)"
    by (simp add: find_def sort_Search_def search_loop.simps Let_def Less_def)
  from find_insertion_index[OF s f] s f show ?thesis by simp
qed


section \<open>The store: nodes, contexts, free lists and trees behind pointers\<close>

text \<open>
  A \<open>*node\<close>, a \<open>*copyOnWriteContext\<close>, a \<open>*FreeNodeList\<close> and a \<open>*BTree\<close> are
  pointers: two trees may hold the same node, and a context is compared by its address.
  The model keeps the objects in a store, one map per type from addresses to objects,
  with a counter of the addresses handed out so far.  A pointer that may be \<open>nil\<close> is an
  \<open>option\<close>.

  A call of the source returns, panics, or (in the model only) exhausts the fuel that
  bounds the depth of a recursion through pointers.  A program takes the store and gives
  the outcome together with the store it leaves behind; the writes made before a panic
  stay.
\<close>

datatype 'a outcome = Done 'a | Panic | OutOfFuel

type_synonym ('a, 's) prog = "'s \<Rightarrow> 'a outcome \<times> 's"

definition ret :: "'a \<Rightarrow> ('a, 's) prog" where
  "ret x = (\<lambda>s. (Done x, s))"

definition panic :: "('a, 's) prog" where
  "panic = (\<lambda>s. (Panic, s))"

definition out_of_fuel :: "('a, 's) prog" where
  "out_of_fuel = (\<lambda>s. (OutOfFuel, s))"

definition bnd :: "('a, 's) prog \<Rightarrow> ('a \<Rightarrow> ('b, 's) prog) \<Rightarrow> ('b, 's) prog" where
  "bnd m f = (\<lambda>s. case m s of
                     (Done x, s') \<Rightarrow> f x s'
                   | (Panic, s') \<Rightarrow> (Panic, s')
                   | (OutOfFuel, s') \<Rightarrow> (OutOfFuel, s'))"

definition gets :: "('s \<Rightarrow> 'a) \<Rightarrow> ('a, 's) prog" where
  "gets f = (\<lambda>s. (Done (f s), s))"

definition modify :: "('s \<Rightarrow> 's) \<Rightarrow> (unit, 's) prog" where
  "modify f = (\<lambda>s. (Done (), f s))"

text \<open>A slice helper that panics out of range, run inside a program.\<close>

definition lift :: "'a option \<Rightarrow> ('a, 's) prog" where
  "lift x = (case x of None \<Rightarrow> panic | Some v \<Rightarrow> ret v)"

text \<open>\<open>xs[i]\<close> read and written; both panic out of range.\<close>

definition index :: "'a list \<Rightarrow> nat \<Rightarrow> 'a option" where
  "index xs i = (if i < length xs then Some (xs ! i) else None)"

definition assign :: "'a list \<Rightarrow> nat \<Rightarrow> 'a \<Rightarrow> 'a list option" where
  "assign xs i x = (if i < length xs then Some (xs[i := x]) else None)"

type_synonym nodePtr = nat
type_synonym ctxPtr = nat
type_synonym freeListPtr = nat
type_synonym treePtr = nat

record ('k, 'v) node =
  records :: "('k, 'v) Record list"
  children :: "nodePtr list"
  cowCtx :: "ctxPtr option"

text \<open>
  \<open>FreeNodeList\<close>: the slice \<open>nodes\<close> and its capacity, fixed by \<open>NewFreeNodeList\<close>
  (no operation of the package appends beyond it).
\<close>

record FreeNodeList =
  nodes :: "nodePtr list"
  capacity :: nat

text \<open>
  \<open>BTree\<close>.  \<open>degree\<close> is \<open>int\<close> in the source; \<open>New\<close> and \<open>WithDegree\<close> only
  ever store a degree of at least 2, so it is a natural number here and \<open>degree*2 - 1\<close>,
  \<open>degree - 1\<close> do not go below zero.  (The field \<open>length\<close> is \<open>tree_length\<close>, the
  field \<open>cowCtx\<close> of the tree is \<open>tree_cowCtx\<close>.)
\<close>

record BTree =
  degree :: nat
  tree_length :: int
  root :: "nodePtr option"
  tree_cowCtx :: ctxPtr

text \<open>
  The store.  \<open>ctx_at c\<close> is the one field \<open>nodes\<close> of the context at address \<open>c\<close>.
\<close>

record ('k, 'v) store =
  node_at :: "nodePtr \<Rightarrow> ('k, 'v) node"
  node_next :: nodePtr
  ctx_at :: "ctxPtr \<Rightarrow> freeListPtr"
  ctx_next :: ctxPtr
  freeList_at :: "freeListPtr \<Rightarrow> FreeNodeList"
  freeList_next :: freeListPtr
  tree_at :: "treePtr \<Rightarrow> BTree"
  tree_next :: treePtr

definition zero_node :: "('k, 'v) node" where
  "zero_node = \<lparr>records = [], children = [], cowCtx = None\<rparr>"

definition empty_store :: "('k, 'v) store" where
  "empty_store =
     \<lparr>node_at = (\<lambda>_. zero_node), node_next = 0,
      ctx_at = (\<lambda>_. 0), ctx_next = 0,
      freeList_at = (\<lambda>_. \<lparr>nodes = [], capacity = 0\<rparr>), freeList_next = 0,
      tree_at = (\<lambda>_. \<lparr>degree = 0, tree_length = 0, root = None, tree_cowCtx = 0\<rparr>),
      tree_next = 0\<rparr>"

definition getRecords :: "nodePtr \<Rightarrow> (('k, 'v) Record list, ('k, 'v) store) prog" where
  "getRecords n = gets (\<lambda>s. records (node_at s n))"

definition getChildren :: "nodePtr \<Rightarrow> (nodePtr list, ('k, 'v) store) prog" where
  "getChildren n = gets (\<lambda>s. children (node_at s n))"

definition getCowCtx :: "nodePtr \<Rightarrow> (ctxPtr option, ('k, 'v) store) prog" where
  "getCowCtx n = gets (\<lambda>s. cowCtx (node_at s n))"

definition setRecords :: "nodePtr \<Rightarrow> ('k, 'v) Record list \<Rightarrow> (unit, ('k, 'v) store) prog" where
  "setRecords n rs = modify (\<lambda>s. s\<lparr>node_at := (node_at s)(n := (node_at s n)\<lparr>records := rs\<rparr>)\<rparr>)"

definition setChildren :: "nodePtr \<Rightarrow> nodePtr list \<Rightarrow> (unit, ('k, 'v) store) prog" where
  "setChildren n cs = modify (\<lambda>s. s\<lparr>node_at := (node_at s)(n := (node_at s n)\<lparr>children := cs\<rparr>)\<rparr>)"

definition setCowCtx :: "nodePtr \<Rightarrow> ctxPtr option \<Rightarrow> (unit, ('k, 'v) store) prog" where
  "setCowCtx n c = modify (\<lambda>s. s\<lparr>node_at := (node_at s)(n := (node_at s n)\<lparr>cowCtx := c\<rparr>)\<rparr>)"

definition getTree :: "treePtr \<Rightarrow> (BTree, ('k, 'v) store) prog" where
  "getTree t = gets (\<lambda>s. tree_at s t)"

definition setRoot :: "treePtr \<Rightarrow> nodePtr option \<Rightarrow> (unit, ('k, 'v) store) prog" where
  "setRoot t r = modify (\<lambda>s. s\<lparr>tree_at := (tree_at s)(t := (tree_at s t)\<lparr>root := r\<rparr>)\<rparr>)"

definition setLength :: "treePtr \<Rightarrow> int \<Rightarrow> (unit, ('k, 'v) store) prog" where
  "setLength t l = modify (\<lambda>s. s\<lparr>tree_at := (tree_at s)(t := (tree_at s t)\<lparr>tree_length := l\<rparr>)\<rparr>)"

subsection \<open>Free lists and contexts\<close>

text \<open>\<open>NewFreeNodeList(size)\<close>: an empty list of the given capacity, at a new address.\<close>

definition NewFreeNodeList :: "nat \<Rightarrow> (freeListPtr, ('k, 'v) store) prog" where
  "NewFreeNodeList sz = (\<lambda>s.
     (Done (freeList_next s),
      s\<lparr>freeList_at := (freeList_at s)(freeList_next s := \<lparr>nodes = [], capacity = sz\<rparr>),
        freeList_next := Suc (freeList_next s)\<rparr>))"

text \<open>
  \<open>FreeNodeList.newNode\<close>: the last node of the list, taken off it, or \<open>new(node)\<close>
  when the list is empty.
\<close>

definition freeList_newNode :: "freeListPtr \<Rightarrow> (nodePtr, ('k, 'v) store) prog" where
  "freeList_newNode freeList = (\<lambda>s.
     (let ns = nodes (freeList_at s freeList) in
      if ns = [] then
        (Done (node_next s),
         s\<lparr>node_at := (node_at s)(node_next s := zero_node), node_next := Suc (node_next s)\<rparr>)
      else
        (Done (last ns),
         s\<lparr>freeList_at := (freeList_at s)(freeList := (freeList_at s freeList)\<lparr>nodes := butlast ns\<rparr>)\<rparr>)))"

text \<open>\<open>FreeNodeList.freeNode\<close>: appends the node while there is room.\<close>

definition freeList_freeNode :: "freeListPtr \<Rightarrow> nodePtr \<Rightarrow> (bool, ('k, 'v) store) prog" where
  "freeList_freeNode freeList nodeInstance = (\<lambda>s.
     (let l = freeList_at s freeList in
      if length (nodes l) < capacity l then
        (Done True, s\<lparr>freeList_at := (freeList_at s)(freeList := l\<lparr>nodes := nodes l @ [nodeInstance]\<rparr>)\<rparr>)
      else (Done False, s)))"

text \<open>
  \<open>copyOnWriteContext.newNode\<close>.  The receiver may be \<open>nil\<close> (a node whose \<open>cowCtx\<close>
  is \<open>nil\<close> passes it on); reading \<open>c.nodes\<close> then panics.
\<close>

definition newNode :: "ctxPtr option \<Rightarrow> (nodePtr, ('k, 'v) store) prog" where
  "newNode c =
     (case c of
        None \<Rightarrow> panic
      | Some c' \<Rightarrow>
          bnd (gets (\<lambda>s. ctx_at s c')) (\<lambda>freeList.
          bnd (freeList_newNode freeList) (\<lambda>n.
          bnd (setCowCtx n c) (\<lambda>_.
          ret n))))"

datatype freeType = ftFreelistFull | ftStored | ftNotOwned

text \<open>\<open>copyOnWriteContext.freeNode\<close>.\<close>

definition freeNode :: "ctxPtr option \<Rightarrow> nodePtr \<Rightarrow> (freeType, ('k, 'v) store) prog" where
  "freeNode c n =
     bnd (getCowCtx n) (\<lambda>owner.
     if owner = c then
       bnd (getRecords n) (\<lambda>rs.
       bnd (lift (slice_truncate rs 0)) (\<lambda>rs'.
       bnd (setRecords n rs') (\<lambda>_.
       bnd (getChildren n) (\<lambda>cs.
       bnd (lift (slice_truncate cs 0)) (\<lambda>cs'.
       bnd (setChildren n cs') (\<lambda>_.
       bnd (setCowCtx n None) (\<lambda>_.
       (case c of
          None \<Rightarrow> panic
        | Some c' \<Rightarrow>
            bnd (gets (\<lambda>s. ctx_at s c')) (\<lambda>freeList.
            bnd (freeList_freeNode freeList n) (\<lambda>added.
            if added then ret ftStored else ret ftFreelistFull))))))))))
     else ret ftNotOwned)"

subsection \<open>Copy on write\<close>

text \<open>
  \<open>node.mutableFor\<close>: the node itself when the context owns it, else a node from the
  context that receives the records and the children of the node.
\<close>

definition mutableFor :: "nodePtr \<Rightarrow> ctxPtr option \<Rightarrow> (nodePtr, ('k, 'v) store) prog" where
  "mutableFor n c =
     bnd (getCowCtx n) (\<lambda>owner.
     if owner = c then ret n
     else
       bnd (newNode c) (\<lambda>newN.
       bnd (getRecords n) (\<lambda>rs.
       bnd (setRecords newN rs) (\<lambda>_.
       bnd (getChildren n) (\<lambda>cs.
       bnd (setChildren newN cs) (\<lambda>_.
       ret newN))))))"

text \<open>\<open>node.mutableChild\<close>.\<close>

definition mutableChild :: "nodePtr \<Rightarrow> nat \<Rightarrow> (nodePtr, ('k, 'v) store) prog" where
  "mutableChild n i =
     bnd (getChildren n) (\<lambda>cs.
     bnd (lift (index cs i)) (\<lambda>child.
     bnd (getCowCtx n) (\<lambda>c.
     bnd (mutableFor child c) (\<lambda>mutableChildNode.
     bnd (getChildren n) (\<lambda>cs'.
     bnd (lift (assign cs' i mutableChildNode)) (\<lambda>cs''.
     bnd (setChildren n cs'') (\<lambda>_.
     ret mutableChildNode)))))))"

subsection \<open>Splitting and inserting\<close>

text \<open>
  \<open>node.split\<close>.  \<open>n.records[i+1:]\<close> and \<open>n.children[i+1:]\<close> panic when \<open>i+1\<close>
  exceeds the length.
\<close>

definition slice_from :: "'a list \<Rightarrow> nat \<Rightarrow> 'a list option" where
  "slice_from xs i = (if i \<le> length xs then Some (drop i xs) else None)"

definition node_split :: "nodePtr \<Rightarrow> nat \<Rightarrow> (('k, 'v) Record \<times> nodePtr, ('k, 'v) store) prog" where
  "node_split n i =
     bnd (getRecords n) (\<lambda>rs.
     bnd (lift (index rs i)) (\<lambda>record.
     bnd (getCowCtx n) (\<lambda>c.
     bnd (newNode c) (\<lambda>next.
     bnd (getRecords n) (\<lambda>rs1.
     bnd (lift (slice_from rs1 (i + 1))) (\<lambda>tail.
     bnd (getRecords next) (\<lambda>nrs.
     bnd (setRecords next (nrs @ tail)) (\<lambda>_.
     bnd (getRecords n) (\<lambda>rs2.
     bnd (lift (slice_truncate rs2 i)) (\<lambda>rs3.
     bnd (setRecords n rs3) (\<lambda>_.
     bnd (getChildren n) (\<lambda>cs.
     bnd (if length cs > 0 then
            bnd (lift (slice_from cs (i + 1))) (\<lambda>ctail.
            bnd (getChildren next) (\<lambda>ncs.
            bnd (setChildren next (ncs @ ctail)) (\<lambda>_.
            bnd (getChildren n) (\<lambda>cs2.
            bnd (lift (slice_truncate cs2 (i + 1))) (\<lambda>cs3.
            setChildren n cs3)))))
          else ret ()) (\<lambda>_.
     ret (record, next))))))))))))))"

text \<open>\<open>node.maybeSplitChild\<close>.\<close>

definition maybeSplitChild :: "nodePtr \<Rightarrow> nat \<Rightarrow> nat \<Rightarrow> (bool, ('k, 'v) store) prog" where
  "maybeSplitChild n i maxRecords =
     bnd (getChildren n) (\<lambda>cs.
     bnd (lift (index cs i)) (\<lambda>child.
     bnd (getRecords child) (\<lambda>crs.
     if length crs < maxRecords then ret False
     else
       bnd (mutableChild n i) (\<lambda>first.
       bnd (node_split first (maxRecords div 2)) (\<lambda>(record, second).
       bnd (getRecords n) (\<lambda>rs.
       bnd (lift (insertAt rs i record)) (\<lambda>rs'.
       bnd (setRecords n rs') (\<lambda>_.
       bnd (getChildren n) (\<lambda>cs1.
       bnd (lift (insertAt cs1 (i + 1) second)) (\<lambda>cs1'.
       bnd (setChildren n cs1') (\<lambda>_.
       ret True)))))))))))"

text \<open>
  \<open>node.insert\<close>.  The recursion goes through a child pointer; \<open>fuel\<close> bounds its
  depth.
\<close>

fun node_insert ::
  "nat \<Rightarrow> nodePtr \<Rightarrow> ('k::linorder, 'v) Record \<Rightarrow> nat \<Rightarrow> (('k, 'v) Record option, ('k, 'v) store) prog"
where
  "node_insert 0 n record maxRecords = out_of_fuel"
| "node_insert (Suc fuel) n record maxRecords =
     bnd (getRecords n) (\<lambda>rs.
     case find rs record of
       (insertionIndex, True) \<Rightarrow>
         bnd (lift (index rs insertionIndex)) (\<lambda>existingRecord.
         bnd (lift (assign rs insertionIndex record)) (\<lambda>rs'.
         bnd (setRecords n rs') (\<lambda>_.
         ret (Some existingRecord))))
     | (insertionIndex, False) \<Rightarrow>
         bnd (getChildren n) (\<lambda>cs.
         if length cs = 0 then
           bnd (lift (insertAt rs insertionIndex record)) (\<lambda>rs'.
           bnd (setRecords n rs') (\<lambda>_.
           ret None))
         else
           bnd (maybeSplitChild n insertionIndex maxRecords) (\<lambda>didSplit.
           if didSplit then
             bnd (getRecords n) (\<lambda>rs1.
             bnd (lift (index rs1 insertionIndex)) (\<lambda>splitRecord.
             if Less record splitRecord then
               bnd (mutableChild n insertionIndex) (\<lambda>child.
               node_insert fuel child record maxRecords)
             else if Less splitRecord record then
               bnd (mutableChild n (insertionIndex + 1)) (\<lambda>child.
               node_insert fuel child record maxRecords)
             else
               bnd (lift (assign rs1 insertionIndex record)) (\<lambda>rs1'.
               bnd (setRecords n rs1') (\<lambda>_.
               ret (Some splitRecord)))))
           else
             bnd (mutableChild n insertionIndex) (\<lambda>child.
             node_insert fuel child record maxRecords))))"


subsection \<open>Reading\<close>

text \<open>\<open>node.get\<close>.\<close>

fun node_get ::
  "nat \<Rightarrow> nodePtr \<Rightarrow> ('k::linorder, 'v) Record \<Rightarrow> (('k, 'v) Record option, ('k, 'v) store) prog"
where
  "node_get 0 n key = out_of_fuel"
| "node_get (Suc fuel) n key =
     bnd (getRecords n) (\<lambda>rs.
     case find rs key of
       (i, True) \<Rightarrow> bnd (lift (index rs i)) (\<lambda>r. ret (Some r))
     | (i, False) \<Rightarrow>
         bnd (getChildren n) (\<lambda>cs.
         if length cs > 0 then
           bnd (lift (index cs i)) (\<lambda>child. node_get fuel child key)
         else ret None))"

text \<open>
  \<open>min\<close> and \<open>max\<close>: the loop \<open>for len(n.children) > 0 { n = n.children[0] }\<close> and
  the read after it.
\<close>

fun node_min :: "nat \<Rightarrow> nodePtr option \<Rightarrow> (('k, 'v) Record option, ('k, 'v) store) prog" where
  "node_min fuel None = ret None"
| "node_min 0 (Some n) = out_of_fuel"
| "node_min (Suc fuel) (Some n) =
     bnd (getChildren n) (\<lambda>cs.
     if length cs > 0 then
       bnd (lift (index cs 0)) (\<lambda>child. node_min fuel (Some child))
     else
       bnd (getRecords n) (\<lambda>rs.
       if length rs = 0 then ret None
       else bnd (lift (index rs 0)) (\<lambda>r. ret (Some r))))"

fun node_max :: "nat \<Rightarrow> nodePtr option \<Rightarrow> (('k, 'v) Record option, ('k, 'v) store) prog" where
  "node_max fuel None = ret None"
| "node_max 0 (Some n) = out_of_fuel"
| "node_max (Suc fuel) (Some n) =
     bnd (getChildren n) (\<lambda>cs.
     if length cs > 0 then
       bnd (lift (index cs (length cs - 1))) (\<lambda>child. node_max fuel (Some child))
     else
       bnd (getRecords n) (\<lambda>rs.
       if length rs = 0 then ret None
       else bnd (lift (index rs (length rs - 1))) (\<lambda>r. ret (Some r))))"

subsection \<open>Removing\<close>

datatype toRemove = removeRecord | removeMin | removeMax

text \<open>
  \<open>records.find\<close> on a record that may be \<open>nil\<close> (\<open>remove\<close> receives \<open>nil\<close> with
  \<open>removeMin\<close> and \<open>removeMax\<close>, and \<open>Delete(nil)\<close> passes it to \<open>find\<close>): the binary
  search calls \<open>record.Less\<close> as soon as the slice is not empty, which panics on \<open>nil\<close>.
\<close>

definition find_record ::
  "('k::linorder, 'v) Record list \<Rightarrow> ('k, 'v) Record option \<Rightarrow> (nat \<times> bool) option" where
  "find_record rs record =
     (case record of
        None \<Rightarrow> if rs = [] then Some (0, False) else None
      | Some r \<Rightarrow> Some (find rs r))"

text \<open>
  \<open>node.remove\<close> and \<open>node.growChildAndRemove\<close>.  The first phase of \<open>remove\<close> (the
  \<open>switch\<close>) either returns a result (\<open>Inl\<close>) or leaves the index of the child to
  descend into with the flag \<open>recordFound\<close> (\<open>Inr\<close>).  Where \<open>remove\<close> stores the
  record that \<open>removeMax\<close> took from the child, the source would store \<open>nil\<close> if the
  child returned \<open>nil\<close>; \<open>removeMax\<close> never does (lemma \<open>removeMax_not_nil\<close>), and the
  model, whose record lists hold no \<open>nil\<close>, panics there.
\<close>

fun node_remove ::
  "nat \<Rightarrow> nodePtr \<Rightarrow> ('k::linorder, 'v) Record option \<Rightarrow> nat \<Rightarrow> toRemove \<Rightarrow>
     (('k, 'v) Record option, ('k, 'v) store) prog"
and growChildAndRemove ::
  "nat \<Rightarrow> nodePtr \<Rightarrow> nat \<Rightarrow> ('k::linorder, 'v) Record option \<Rightarrow> nat \<Rightarrow> toRemove \<Rightarrow>
     (('k, 'v) Record option, ('k, 'v) store) prog"
where
  "node_remove 0 n record minRecords removalType = out_of_fuel"
| "node_remove (Suc fuel) n record minRecords removalType =
     bnd (getRecords n) (\<lambda>rs.
     bnd (getChildren n) (\<lambda>cs.
     bnd (case removalType of
            removeMax \<Rightarrow>
              if length cs = 0 then
                bnd (lift (pop rs)) (\<lambda>(r, rs').
                bnd (setRecords n rs') (\<lambda>_.
                ret (Inl (Some r))))
              else ret (Inr (length rs, False))
          | removeMin \<Rightarrow>
              if length cs = 0 then
                bnd (lift (removeAt rs 0)) (\<lambda>(r, rs').
                bnd (setRecords n rs') (\<lambda>_.
                ret (Inl (Some r))))
              else ret (Inr (0, False))
          | removeRecord \<Rightarrow>
              bnd (lift (find_record rs record)) (\<lambda>(targetIndex, recordFound).
              if length cs = 0 then
                (if recordFound then
                   bnd (lift (removeAt rs targetIndex)) (\<lambda>(r, rs').
                   bnd (setRecords n rs') (\<lambda>_.
                   ret (Inl (Some r))))
                 else ret (Inl None))
              else ret (Inr (targetIndex, recordFound))))
       (\<lambda>phase.
        case phase of
          Inl result \<Rightarrow> ret result
        | Inr (targetIndex, recordFound) \<Rightarrow>
            bnd (lift (index cs targetIndex)) (\<lambda>child.
            bnd (getRecords child) (\<lambda>crs.
            if length crs \<le> minRecords then
              growChildAndRemove fuel n targetIndex record minRecords removalType
            else
              bnd (mutableChild n targetIndex) (\<lambda>targetChild.
              if recordFound then
                bnd (getRecords n) (\<lambda>rs1.
                bnd (lift (index rs1 targetIndex)) (\<lambda>replacedRecord.
                bnd (node_remove fuel targetChild None minRecords removeMax) (\<lambda>predecessor.
                case predecessor of
                  None \<Rightarrow> panic
                | Some pr \<Rightarrow>
                    bnd (getRecords n) (\<lambda>rs2.
                    bnd (lift (assign rs2 targetIndex pr)) (\<lambda>rs2'.
                    bnd (setRecords n rs2') (\<lambda>_.
                    ret (Some replacedRecord)))))))
              else node_remove fuel targetChild record minRecords removalType))))))"
| "growChildAndRemove 0 n i record minRecords typ = out_of_fuel"
| "growChildAndRemove (Suc fuel) n i record minRecords typ =
     bnd (getChildren n) (\<lambda>cs.
     bnd (if i > 0 then
            bnd (lift (index cs (i - 1))) (\<lambda>left.
            bnd (getRecords left) (\<lambda>lrs. ret (length lrs > minRecords)))
          else ret False) (\<lambda>stealLeft.
     if stealLeft then
       bnd (mutableChild n i) (\<lambda>child.
       bnd (mutableChild n (i - 1)) (\<lambda>stealFrom.
       bnd (getRecords stealFrom) (\<lambda>srs.
       bnd (lift (pop srs)) (\<lambda>(stolenRecord, srs').
       bnd (setRecords stealFrom srs') (\<lambda>_.
       bnd (getRecords n) (\<lambda>rs.
       bnd (lift (index rs (i - 1))) (\<lambda>separator.
       bnd (getRecords child) (\<lambda>crs.
       bnd (lift (insertAt crs 0 separator)) (\<lambda>crs'.
       bnd (setRecords child crs') (\<lambda>_.
       bnd (getRecords n) (\<lambda>rs1.
       bnd (lift (assign rs1 (i - 1) stolenRecord)) (\<lambda>rs1'.
       bnd (setRecords n rs1') (\<lambda>_.
       bnd (getChildren stealFrom) (\<lambda>scs.
       bnd (if length scs > 0 then
              bnd (lift (pop scs)) (\<lambda>(stolenChild, scs').
              bnd (setChildren stealFrom scs') (\<lambda>_.
              bnd (getChildren child) (\<lambda>ccs.
              bnd (lift (insertAt ccs 0 stolenChild)) (\<lambda>ccs'.
              setChildren child ccs'))))
            else ret ()) (\<lambda>_.
       node_remove fuel n record minRecords typ)))))))))))))))
     else
       bnd (getRecords n) (\<lambda>rs0.
       bnd (if i < length rs0 then
              bnd (getChildren n) (\<lambda>cs0.
              bnd (lift (index cs0 (i + 1))) (\<lambda>right.
              bnd (getRecords right) (\<lambda>rrs. ret (length rrs > minRecords))))
            else ret False) (\<lambda>stealRight.
       if stealRight then
         bnd (mutableChild n i) (\<lambda>child.
         bnd (mutableChild n (i + 1)) (\<lambda>stealFrom.
         bnd (getRecords stealFrom) (\<lambda>srs.
         bnd (lift (removeAt srs 0)) (\<lambda>(stolenRecord, srs').
         bnd (setRecords stealFrom srs') (\<lambda>_.
         bnd (getRecords n) (\<lambda>rs.
         bnd (lift (index rs i)) (\<lambda>separator.
         bnd (getRecords child) (\<lambda>crs.
         bnd (setRecords child (crs @ [separator])) (\<lambda>_.
         bnd (getRecords n) (\<lambda>rs1.
         bnd (lift (assign rs1 i stolenRecord)) (\<lambda>rs1'.
         bnd (setRecords n rs1') (\<lambda>_.
         bnd (getChildren stealFrom) (\<lambda>scs.
         bnd (if length scs > 0 then
                bnd (lift (removeAt scs 0)) (\<lambda>(stolenChild, scs').
                bnd (setChildren stealFrom scs') (\<lambda>_.
                bnd (getChildren child) (\<lambda>ccs.
                setChildren child (ccs @ [stolenChild]))))
              else ret ()) (\<lambda>_.
         node_remove fuel n record minRecords typ))))))))))))))
       else
         bnd (getRecords n) (\<lambda>rs.
         if i \<ge> length rs \<and> i = 0 then panic
         else
           (let i' = (if i \<ge> length rs then i - 1 else i) in
            bnd (mutableChild n i') (\<lambda>child.
            bnd (getRecords n) (\<lambda>rs1.
            bnd (lift (removeAt rs1 i')) (\<lambda>(mergeRecord, rs1').
            bnd (setRecords n rs1') (\<lambda>_.
            bnd (getChildren n) (\<lambda>cs1.
            bnd (lift (removeAt cs1 (i' + 1))) (\<lambda>(removedChild, cs1').
            bnd (setChildren n cs1') (\<lambda>_.
            bnd (getCowCtx n) (\<lambda>c.
            bnd (mutableFor removedChild c) (\<lambda>mergeChild.
            bnd (getRecords child) (\<lambda>crs.
            bnd (setRecords child (crs @ [mergeRecord])) (\<lambda>_.
            bnd (getRecords child) (\<lambda>crs1.
            bnd (getRecords mergeChild) (\<lambda>mrs.
            bnd (setRecords child (crs1 @ mrs)) (\<lambda>_.
            bnd (getChildren child) (\<lambda>ccs.
            bnd (getChildren mergeChild) (\<lambda>mcs.
            bnd (setChildren child (ccs @ mcs)) (\<lambda>_.
            bnd (getCowCtx n) (\<lambda>c1.
            bnd (freeNode c1 mergeChild) (\<lambda>_.
            node_remove fuel n record minRecords typ)))))))))))))))))))))))))"


subsection \<open>Iterating\<close>

text \<open>
  A \<open>RecordIterator\<close> is a Go closure: it sees a record, may change what it has
  captured, and answers whether to go on.  The model threads what it has captured as a
  value of type \<open>'i\<close>.  \<open>iterate\<close> writes nothing to the store, so it takes the store
  and gives an outcome only: the pair \<open>(hit, ok)\<close> that the source returns and the
  iterator's state.
\<close>

type_synonym ('k, 'v, 'i) RecordIterator = "('k, 'v) Record \<Rightarrow> 'i \<Rightarrow> bool \<times> 'i"

datatype direction = descend | ascend

definition obind :: "'a outcome \<Rightarrow> ('a \<Rightarrow> 'b outcome) \<Rightarrow> 'b outcome" where
  "obind m f = (case m of Done x \<Rightarrow> f x | Panic \<Rightarrow> Panic | OutOfFuel \<Rightarrow> OutOfFuel)"

definition olift :: "'a option \<Rightarrow> 'a outcome" where
  "olift x = (case x of None \<Rightarrow> Panic | Some v \<Rightarrow> Done v)"

text \<open>
  \<open>node.iterate\<close> with its two loops.  \<open>ascend_loop\<close> is the loop
  \<open>for i := index; i < len(n.records); i++\<close>; \<open>descend_loop\<close> is the loop
  \<open>for i := index; i >= 0; i--\<close>, counted by \<open>k = i + 1\<close>.  Each loop gives \<open>ok = False\<close>
  when its body returned from \<open>iterate\<close>, and \<open>ok = True\<close> when it ran to its end.
\<close>

function node_iterate ::
  "nat \<Rightarrow> ('k::linorder, 'v) store \<Rightarrow> direction \<Rightarrow> ('k, 'v) Record option \<Rightarrow> ('k, 'v) Record option \<Rightarrow>
     bool \<Rightarrow> ('k, 'v, 'i) RecordIterator \<Rightarrow> nodePtr \<Rightarrow> bool \<Rightarrow> 'i \<Rightarrow> ((bool \<times> bool) \<times> 'i) outcome"
and ascend_loop ::
  "nat \<Rightarrow> ('k::linorder, 'v) store \<Rightarrow> ('k, 'v) Record option \<Rightarrow> ('k, 'v) Record option \<Rightarrow>
     bool \<Rightarrow> ('k, 'v, 'i) RecordIterator \<Rightarrow> nodePtr \<Rightarrow> nat \<Rightarrow> bool \<Rightarrow> 'i \<Rightarrow> ((bool \<times> bool) \<times> 'i) outcome"
and descend_loop ::
  "nat \<Rightarrow> ('k::linorder, 'v) store \<Rightarrow> ('k, 'v) Record option \<Rightarrow> ('k, 'v) Record option \<Rightarrow>
     bool \<Rightarrow> ('k, 'v, 'i) RecordIterator \<Rightarrow> nodePtr \<Rightarrow> nat \<Rightarrow> bool \<Rightarrow> 'i \<Rightarrow> ((bool \<times> bool) \<times> 'i) outcome"
where
  "node_iterate 0 s dir start stop includeStart iter n hit it = OutOfFuel"
| "node_iterate (Suc fuel) s dir start stop includeStart iter n hit it =
     (let rs = records (node_at s n); cs = children (node_at s n) in
      case dir of
        ascend \<Rightarrow>
          obind (ascend_loop fuel s start stop includeStart iter n
                   (case start of None \<Rightarrow> 0 | Some st \<Rightarrow> fst (find rs st)) hit it)
            (\<lambda>((hit1, ok1), it1).
             if \<not> ok1 then Done ((hit1, False), it1)
             else if length cs > 0 then
               obind (olift (index cs (length cs - 1))) (\<lambda>child.
               obind (node_iterate fuel s dir start stop includeStart iter child hit1 it1)
                 (\<lambda>((hit2, ok2), it2).
                  if \<not> ok2 then Done ((hit2, False), it2) else Done ((hit2, True), it2)))
             else Done ((hit1, True), it1))
      | descend \<Rightarrow>
          obind (descend_loop fuel s start stop includeStart iter n
                   (case start of
                      None \<Rightarrow> length rs
                    | Some st \<Rightarrow> (case find rs st of (i, found) \<Rightarrow> if found then i + 1 else i))
                   hit it)
            (\<lambda>((hit1, ok1), it1).
             if \<not> ok1 then Done ((hit1, False), it1)
             else if length cs > 0 then
               obind (olift (index cs 0)) (\<lambda>child.
               obind (node_iterate fuel s dir start stop includeStart iter child hit1 it1)
                 (\<lambda>((hit2, ok2), it2).
                  if \<not> ok2 then Done ((hit2, False), it2) else Done ((hit2, True), it2)))
             else Done ((hit1, True), it1)))"
| "ascend_loop fuel s start stop includeStart iter n i hit it =
     (let rs = records (node_at s n); cs = children (node_at s n) in
      if i < length rs then
        obind (if length cs > 0 then
                 obind (olift (index cs i)) (\<lambda>child.
                 node_iterate fuel s ascend start stop includeStart iter child hit it)
               else Done ((hit, True), it))
          (\<lambda>((hit1, ok1), it1).
           if \<not> ok1 then Done ((hit1, False), it1)
           else if \<not> includeStart \<and> \<not> hit1 \<and> start \<noteq> None \<and> \<not> Less (the start) (rs ! i) then
             ascend_loop fuel s start stop includeStart iter n (i + 1) True it1
           else if stop \<noteq> None \<and> \<not> Less (rs ! i) (the stop) then Done ((True, False), it1)
           else
             (case iter (rs ! i) it1 of
                (go, it2) \<Rightarrow>
                  if \<not> go then Done ((True, False), it2)
                  else ascend_loop fuel s start stop includeStart iter n (i + 1) True it2))
      else Done ((hit, True), it))"
| "descend_loop fuel s start stop includeStart iter n 0 hit it = Done ((hit, True), it)"
| "descend_loop fuel s start stop includeStart iter n (Suc i) hit it =
     (let rs = records (node_at s n); cs = children (node_at s n) in
      obind (olift (index rs i)) (\<lambda>r.
      if start \<noteq> None \<and> \<not> Less r (the start) \<and>
         (\<not> includeStart \<or> hit \<or> Less (the start) r)
      then descend_loop fuel s start stop includeStart iter n i hit it
      else
        obind (if length cs > 0 then
                 obind (olift (index cs (i + 1))) (\<lambda>child.
                 node_iterate fuel s descend start stop includeStart iter child hit it)
               else Done ((hit, True), it))
          (\<lambda>((hit1, ok1), it1).
           if \<not> ok1 then Done ((hit1, False), it1)
           else if stop \<noteq> None \<and> \<not> Less (the stop) r then Done ((hit1, False), it1)
           else
             (case iter r it1 of
                (go, it2) \<Rightarrow>
                  if \<not> go then Done ((True, False), it2)
                  else descend_loop fuel s start stop includeStart iter n i True it2))))"
  by pat_completeness auto
termination
  by (relation "inv_image (less_than <*lex*> less_than <*lex*> less_than)
        (\<lambda>x. case x of
           Inl (fuel, s, dir, start, stop, includeStart, iter, n, hit, it) \<Rightarrow> (fuel, 0, 0)
         | Inr (Inl (fuel, s, start, stop, includeStart, iter, n, i, hit, it)) \<Rightarrow>
             (fuel, 1, length (records (node_at s n)) - i)
         | Inr (Inr (fuel, s, start, stop, includeStart, iter, n, i, hit, it)) \<Rightarrow> (fuel, 1, i))")
     auto


subsection \<open>The tree\<close>

text \<open>
  \<open>New\<close> with its options.  \<open>WithDegree\<close> panics on a degree of 1 or less;
  \<open>WithFreeNodeList\<close> gives the tree a new context on the list passed in.
\<close>

datatype BTreeOption = WithDegree int | WithFreeNodeList freeListPtr

definition DefaultFreeNodeListSize :: nat where
  "DefaultFreeNodeListSize = 32"

definition newContext :: "freeListPtr \<Rightarrow> (ctxPtr, ('k, 'v) store) prog" where
  "newContext freeList = (\<lambda>s.
     (Done (ctx_next s),
      s\<lparr>ctx_at := (ctx_at s)(ctx_next s := freeList), ctx_next := Suc (ctx_next s)\<rparr>))"

definition newTree :: "BTree \<Rightarrow> (treePtr, ('k, 'v) store) prog" where
  "newTree b = (\<lambda>s.
     (Done (tree_next s),
      s\<lparr>tree_at := (tree_at s)(tree_next s := b), tree_next := Suc (tree_next s)\<rparr>))"

definition applyOption :: "treePtr \<Rightarrow> BTreeOption \<Rightarrow> (unit, ('k, 'v) store) prog" where
  "applyOption bt opt =
     (case opt of
        WithDegree d \<Rightarrow>
          if d \<le> 1 then panic
          else modify (\<lambda>s. s\<lparr>tree_at := (tree_at s)(bt := (tree_at s bt)\<lparr>degree := nat d\<rparr>)\<rparr>)
      | WithFreeNodeList freeList \<Rightarrow>
          bnd (newContext freeList) (\<lambda>c.
          modify (\<lambda>s. s\<lparr>tree_at := (tree_at s)(bt := (tree_at s bt)\<lparr>tree_cowCtx := c\<rparr>)\<rparr>)))"

fun applyOptions :: "treePtr \<Rightarrow> BTreeOption list \<Rightarrow> (unit, ('k, 'v) store) prog" where
  "applyOptions bt [] = ret ()"
| "applyOptions bt (opt # options) = bnd (applyOption bt opt) (\<lambda>_. applyOptions bt options)"

definition New :: "BTreeOption list \<Rightarrow> (treePtr, ('k, 'v) store) prog" where
  "New options =
     bnd (NewFreeNodeList DefaultFreeNodeListSize) (\<lambda>freeList.
     bnd (newContext freeList) (\<lambda>c.
     bnd (newTree \<lparr>degree = 16, tree_length = 0, root = None, tree_cowCtx = c\<rparr>) (\<lambda>btree.
     bnd (applyOptions btree options) (\<lambda>_.
     ret btree))))"

definition maxRecords :: "BTree \<Rightarrow> nat" where
  "maxRecords t = degree t * 2 - 1"

definition minRecords :: "BTree \<Rightarrow> nat" where
  "minRecords t = degree t - 1"

text \<open>
  \<open>Clone\<close>: two new contexts, each a copy of the tree's context (so both point at the
  same free list), and a new tree that is a copy of the tree.
\<close>

definition Clone :: "treePtr \<Rightarrow> (treePtr, ('k, 'v) store) prog" where
  "Clone t =
     bnd (getTree t) (\<lambda>b.
     bnd (gets (\<lambda>s. ctx_at s (tree_cowCtx b))) (\<lambda>freeList.
     bnd (newContext freeList) (\<lambda>originalContext.
     bnd (newContext freeList) (\<lambda>clonedContext.
     bnd (getTree t) (\<lambda>b1.
     bnd (newTree b1) (\<lambda>clonedTree.
     bnd (modify (\<lambda>s. s\<lparr>tree_at := (tree_at s)(t := (tree_at s t)\<lparr>tree_cowCtx := originalContext\<rparr>)\<rparr>)) (\<lambda>_.
     bnd (modify (\<lambda>s. s\<lparr>tree_at :=
            (tree_at s)(clonedTree := (tree_at s clonedTree)\<lparr>tree_cowCtx := clonedContext\<rparr>)\<rparr>)) (\<lambda>_.
     ret clonedTree))))))))"

text \<open>\<open>BTree.Insert\<close>; \<open>fuel\<close> is passed to \<open>node.insert\<close>.\<close>

definition Insert ::
  "nat \<Rightarrow> treePtr \<Rightarrow> ('k::linorder, 'v) Record option \<Rightarrow> (('k, 'v) Record option, ('k, 'v) store) prog"
where
  "Insert fuel t record =
     (case record of
        None \<Rightarrow> panic
      | Some r \<Rightarrow>
          bnd (getTree t) (\<lambda>b.
          case root b of
            None \<Rightarrow>
              bnd (newNode (Some (tree_cowCtx b))) (\<lambda>n.
              bnd (setRoot t (Some n)) (\<lambda>_.
              bnd (getRecords n) (\<lambda>rs.
              bnd (setRecords n (rs @ [r])) (\<lambda>_.
              bnd (getTree t) (\<lambda>b1.
              bnd (setLength t (tree_length b1 + 1)) (\<lambda>_.
              ret None))))))
          | Some oldRootPtr \<Rightarrow>
              bnd (mutableFor oldRootPtr (Some (tree_cowCtx b))) (\<lambda>rootPtr.
              bnd (setRoot t (Some rootPtr)) (\<lambda>_.
              bnd (getRecords rootPtr) (\<lambda>rs.
              bnd (if length rs \<ge> maxRecords b then
                     bnd (node_split rootPtr (maxRecords b div 2)) (\<lambda>(middleRecord, newChildNode).
                     bnd (newNode (Some (tree_cowCtx b))) (\<lambda>newRoot.
                     bnd (setRoot t (Some newRoot)) (\<lambda>_.
                     bnd (getRecords newRoot) (\<lambda>nrs.
                     bnd (setRecords newRoot (nrs @ [middleRecord])) (\<lambda>_.
                     bnd (getChildren newRoot) (\<lambda>ncs.
                     bnd (setChildren newRoot (ncs @ [rootPtr, newChildNode])) (\<lambda>_.
                     ret newRoot)))))))
                   else ret rootPtr) (\<lambda>currentRoot.
              bnd (node_insert fuel currentRoot r (maxRecords b)) (\<lambda>replacedRecord.
              if replacedRecord = None then
                bnd (getTree t) (\<lambda>b1.
                bnd (setLength t (tree_length b1 + 1)) (\<lambda>_.
                ret replacedRecord))
              else ret replacedRecord)))))))"

text \<open>\<open>BTree.deleteRecord\<close> and the five operations that call it.\<close>

definition deleteRecord ::
  "nat \<Rightarrow> treePtr \<Rightarrow> ('k::linorder, 'v) Record option \<Rightarrow> toRemove \<Rightarrow>
     (('k, 'v) Record option, ('k, 'v) store) prog"
where
  "deleteRecord fuel t record removalType =
     bnd (getTree t) (\<lambda>b.
     case root b of
       None \<Rightarrow> ret None
     | Some oldRootPtr \<Rightarrow>
         bnd (getRecords oldRootPtr) (\<lambda>rs.
         if length rs = 0 then ret None
         else
           bnd (mutableFor oldRootPtr (Some (tree_cowCtx b))) (\<lambda>rootPtr.
           bnd (setRoot t (Some rootPtr)) (\<lambda>_.
           bnd (node_remove fuel rootPtr record (minRecords b) removalType) (\<lambda>removedRecord.
           bnd (getRecords rootPtr) (\<lambda>rs1.
           bnd (getChildren rootPtr) (\<lambda>cs1.
           bnd (if length rs1 = 0 \<and> length cs1 > 0 then
                  bnd (lift (index cs1 0)) (\<lambda>child.
                  bnd (setRoot t (Some child)) (\<lambda>_.
                  bnd (freeNode (Some (tree_cowCtx b)) rootPtr) (\<lambda>_.
                  ret ())))
                else ret ()) (\<lambda>_.
           if removedRecord \<noteq> None then
             bnd (getTree t) (\<lambda>b1.
             bnd (setLength t (tree_length b1 - 1)) (\<lambda>_.
             ret removedRecord))
           else ret removedRecord))))))))"

definition Delete ::
  "nat \<Rightarrow> treePtr \<Rightarrow> ('k::linorder, 'v) Record option \<Rightarrow> (('k, 'v) Record option, ('k, 'v) store) prog"
where
  "Delete fuel t record = deleteRecord fuel t record removeRecord"

definition DeleteMin :: "nat \<Rightarrow> treePtr \<Rightarrow> (('k::linorder, 'v) Record option, ('k, 'v) store) prog" where
  "DeleteMin fuel t = deleteRecord fuel t None removeMin"

definition Shift :: "nat \<Rightarrow> treePtr \<Rightarrow> (('k::linorder, 'v) Record option, ('k, 'v) store) prog" where
  "Shift fuel t = deleteRecord fuel t None removeMin"

definition DeleteMax :: "nat \<Rightarrow> treePtr \<Rightarrow> (('k::linorder, 'v) Record option, ('k, 'v) store) prog" where
  "DeleteMax fuel t = deleteRecord fuel t None removeMax"

definition Pop :: "nat \<Rightarrow> treePtr \<Rightarrow> (('k::linorder, 'v) Record option, ('k, 'v) store) prog" where
  "Pop fuel t = deleteRecord fuel t None removeMax"

text \<open>
  The readers.  \<open>Ascend\<close> and \<open>Descend\<close> give the iterator's state after the walk.
\<close>

definition Ascend ::
  "nat \<Rightarrow> ('k::linorder, 'v) store \<Rightarrow> treePtr \<Rightarrow> ('k, 'v, 'i) RecordIterator \<Rightarrow> 'i \<Rightarrow> 'i outcome" where
  "Ascend fuel s t iterator it =
     (case root (tree_at s t) of
        None \<Rightarrow> Done it
      | Some r \<Rightarrow>
          obind (node_iterate fuel s ascend None None False iterator r False it) (\<lambda>(_, it'). Done it'))"

definition Descend ::
  "nat \<Rightarrow> ('k::linorder, 'v) store \<Rightarrow> treePtr \<Rightarrow> ('k, 'v, 'i) RecordIterator \<Rightarrow> 'i \<Rightarrow> 'i outcome" where
  "Descend fuel s t iterator it =
     (case root (tree_at s t) of
        None \<Rightarrow> Done it
      | Some r \<Rightarrow>
          obind (node_iterate fuel s descend None None False iterator r False it) (\<lambda>(_, it'). Done it'))"

definition Get ::
  "nat \<Rightarrow> treePtr \<Rightarrow> ('k::linorder, 'v) Record \<Rightarrow> (('k, 'v) Record option, ('k, 'v) store) prog" where
  "Get fuel t key =
     bnd (getTree t) (\<lambda>b.
     case root b of None \<Rightarrow> ret None | Some r \<Rightarrow> node_get fuel r key)"

definition Min :: "nat \<Rightarrow> treePtr \<Rightarrow> (('k, 'v) Record option, ('k, 'v) store) prog" where
  "Min fuel t = bnd (getTree t) (\<lambda>b. node_min fuel (root b))"

definition Max :: "nat \<Rightarrow> treePtr \<Rightarrow> (('k, 'v) Record option, ('k, 'v) store) prog" where
  "Max fuel t = bnd (getTree t) (\<lambda>b. node_max fuel (root b))"

definition Len :: "('k, 'v) store \<Rightarrow> treePtr \<Rightarrow> int" where
  "Len s t = tree_length (tree_at s t)"

text \<open>The iterator that notes every record it is given and always goes on.\<close>

definition collect :: "('k, 'v, ('k, 'v) Record list) RecordIterator" where
  "collect r acc = (True, acc @ [r])"


section \<open>Running programs on the store\<close>

lemma bnd_ret: "bnd (ret x) f = f x"
  by (auto simp: bnd_def ret_def)

lemma bnd_panic: "bnd panic f = panic"
  by (auto simp: bnd_def panic_def)

lemma bnd_out_of_fuel: "bnd out_of_fuel f = out_of_fuel"
  by (auto simp: bnd_def out_of_fuel_def)

lemma bnd_gets: "bnd (gets g) f s = f (g s) s"
  by (simp add: bnd_def gets_def)

lemma bnd_modify: "bnd (modify g) f s = f () (g s)"
  by (simp add: bnd_def modify_def)

lemma bnd_lift:
  "bnd (lift (Some v)) f = f v"
  "bnd (lift None) f = panic"
  by (simp_all add: lift_def bnd_ret bnd_panic)

lemma ret_apply: "ret x s = (Done x, s)"
  by (simp add: ret_def)

lemma panic_apply: "panic s = (Panic, s)"
  by (simp add: panic_def)

lemma out_of_fuel_apply: "out_of_fuel s = (OutOfFuel, s)"
  by (simp add: out_of_fuel_def)

lemma bnd_freeList_freeNode:
  "bnd (freeList_freeNode fl n) f s =
     (if length (nodes (freeList_at s fl)) < capacity (freeList_at s fl)
      then f True (s\<lparr>freeList_at :=
             (freeList_at s)(fl := (freeList_at s fl)\<lparr>nodes := nodes (freeList_at s fl) @ [n]\<rparr>)\<rparr>)
      else f False s)"
  by (simp add: bnd_def freeList_freeNode_def Let_def)

lemmas prog_simps =
  bnd_ret bnd_panic bnd_out_of_fuel bnd_gets bnd_modify bnd_lift ret_apply panic_apply
  out_of_fuel_apply

section \<open>Insert(nil)\<close>

text \<open>
  Claim C7: \<open>Insert(nil)\<close> panics, whatever the tree, and leaves the store as it was:
  no node, no tree field and so no \<open>Len()\<close> has changed.
\<close>

theorem Insert_nil_panics:
  "Insert fuel t None s = (Panic, s) \<and> Len (snd (Insert fuel t None s)) t = Len s t"
  by (simp add: Insert_def prog_simps)

section \<open>Deleting from an empty tree\<close>

text \<open>
  A tree is empty when its root is \<open>nil\<close> or its root holds no record: the test
  \<open>t.root == nil || len(t.root.records) == 0\<close>.
\<close>

definition emptyTree :: "('k, 'v) store \<Rightarrow> treePtr \<Rightarrow> bool" where
  "emptyTree s t =
     (case root (tree_at s t) of None \<Rightarrow> True | Some r \<Rightarrow> length (records (node_at s r)) = 0)"

lemma deleteRecord_empty:
  "emptyTree s t \<Longrightarrow> deleteRecord fuel t record typ s = (Done None, s)"
  by (auto simp: emptyTree_def deleteRecord_def getTree_def getRecords_def prog_simps
      split: option.splits)

text \<open>
  Claim C8: on an empty tree each of \<open>Delete\<close>, \<open>DeleteMin\<close>, \<open>DeleteMax\<close>, \<open>Pop\<close>
  and \<open>Shift\<close> returns \<open>nil\<close> and leaves the whole store, and with it the root and the
  length of the tree, unchanged.
\<close>

theorem delete_on_empty_tree:
  assumes "emptyTree s t"
  shows "Delete fuel t record s = (Done None, s) \<and>
         DeleteMin fuel t s = (Done None, s) \<and>
         DeleteMax fuel t s = (Done None, s) \<and>
         Pop fuel t s = (Done None, s) \<and>
         Shift fuel t s = (Done None, s)"
  using deleteRecord_empty[OF assms]
  by (simp add: Delete_def DeleteMin_def DeleteMax_def Pop_def Shift_def)

text \<open>
  A store as \<open>New(WithDegree(2))\<close>, an \<open>Insert\<close> and the \<open>Delete\<close> of the record
  leave it: the tree at address 0 keeps its root, node 0, which holds no record.
\<close>

definition emptied_store :: "(nat, nat) store" where
  "emptied_store =
     \<lparr>node_at = (\<lambda>_. zero_node)(0 := \<lparr>records = [], children = [], cowCtx = Some 0\<rparr>),
      node_next = 1,
      ctx_at = (\<lambda>_. 0), ctx_next = 1,
      freeList_at = (\<lambda>_. \<lparr>nodes = [], capacity = 0\<rparr>)(0 := \<lparr>nodes = [], capacity = 32\<rparr>),
      freeList_next = 1,
      tree_at = (\<lambda>_. \<lparr>degree = 0, tree_length = 0, root = None, tree_cowCtx = 0\<rparr>)
                  (0 := \<lparr>degree = 2, tree_length = 0, root = Some 0, tree_cowCtx = 0\<rparr>),
      tree_next = 1\<rparr>"

theorem delete_on_empty_tree_witness:
  "emptyTree emptied_store 0 \<and> root (tree_at emptied_store 0) = Some 0 \<and>
   Delete 5 0 (Some (7, 7)) emptied_store = (Done None, emptied_store) \<and>
   DeleteMin 5 0 emptied_store = (Done None, emptied_store) \<and>
   DeleteMax 5 0 emptied_store = (Done None, emptied_store) \<and>
   Pop 5 0 emptied_store = (Done None, emptied_store) \<and>
   Shift 5 0 emptied_store = (Done None, emptied_store)"
proof -
  have r: "root (tree_at emptied_store 0) = Some 0"
    by (simp add: emptied_store_def)
  have e: "emptyTree emptied_store 0"
    by (simp add: emptyTree_def emptied_store_def)
  from delete_on_empty_tree[OF e, of 5 "Some (7, 7)"] e r show ?thesis by blast
qed

section \<open>Giving a node back to a context\<close>

text \<open>
  Claim C9: \<open>c.freeNode(n)\<close> returns one of \<open>ftStored\<close>, \<open>ftFreelistFull\<close> and
  \<open>ftNotOwned\<close>.  When the owner of \<open>n\<close> is not \<open>c\<close> it returns \<open>ftNotOwned\<close> and
  the store is unchanged (the node and every free list are as before).  When the owner
  is \<open>c\<close> the node is cleared, and the answer is \<open>ftStored\<close> exactly when the free list
  of \<open>c\<close> had room.
\<close>

theorem freeNode_outcomes:
  "\<exists>r s'. freeNode (Some c) n s = (Done r, s') \<and>
     (cowCtx (node_at s n) \<noteq> Some c \<longrightarrow> r = ftNotOwned \<and> s' = s) \<and>
     (cowCtx (node_at s n) = Some c \<longrightarrow>
        (r = ftStored \<or> r = ftFreelistFull) \<and>
        (r = ftStored \<longleftrightarrow>
           length (nodes (freeList_at s (ctx_at s c))) < capacity (freeList_at s (ctx_at s c))) \<and>
        node_at s' n = zero_node)"
  by (auto simp: freeNode_def getCowCtx_def getRecords_def getChildren_def setRecords_def
      setChildren_def setCowCtx_def slice_truncate_def bnd_freeList_freeNode zero_node_def
      prog_simps)

text \<open>
  A store as \<open>New(WithDegree(2))\<close>, one \<open>Insert\<close> and \<open>Clone\<close> leave it: node 0 is
  owned by context 0, the tree (address 0) has context 1 and its clone (address 1) has
  context 2; the three contexts share free list 0.
\<close>

definition cloned_store :: "(nat, nat) store" where
  "cloned_store =
     \<lparr>node_at = (\<lambda>_. zero_node)(0 := \<lparr>records = [(1, 1)], children = [], cowCtx = Some 0\<rparr>),
      node_next = 1,
      ctx_at = (\<lambda>_. 0), ctx_next = 3,
      freeList_at = (\<lambda>_. \<lparr>nodes = [], capacity = 0\<rparr>)(0 := \<lparr>nodes = [], capacity = 32\<rparr>),
      freeList_next = 1,
      tree_at = (\<lambda>_. \<lparr>degree = 0, tree_length = 0, root = None, tree_cowCtx = 0\<rparr>)
                  (0 := \<lparr>degree = 2, tree_length = 1, root = Some 0, tree_cowCtx = 1\<rparr>,
                   1 := \<lparr>degree = 2, tree_length = 1, root = Some 0, tree_cowCtx = 2\<rparr>),
      tree_next = 2\<rparr>"

theorem freeNode_outcomes_witness:
  "cowCtx (node_at cloned_store 0) = Some 0 \<and>
   tree_cowCtx (tree_at cloned_store 0) = 1 \<and>
   freeNode (Some 1) 0 cloned_store = (Done ftNotOwned, cloned_store) \<and>
   (\<exists>s'. freeNode (Some 0) 0 cloned_store = (Done ftStored, s') \<and> node_at s' 0 = zero_node)"
proof -
  have o: "cowCtx (node_at cloned_store 0) = Some 0"
    by (simp add: cloned_store_def)
  have t: "tree_cowCtx (tree_at cloned_store 0) = 1"
    by (simp add: cloned_store_def)
  have room: "length (nodes (freeList_at cloned_store (ctx_at cloned_store 0)))
                < capacity (freeList_at cloned_store (ctx_at cloned_store 0))"
    by (simp add: cloned_store_def)
  have o1: "cowCtx (node_at cloned_store 0) \<noteq> Some 1" using o by simp
  from freeNode_outcomes[of 1 0 cloned_store] o1
  have a: "freeNode (Some 1) 0 cloned_store = (Done ftNotOwned, cloned_store)" by blast
  from freeNode_outcomes[of 0 0 cloned_store] o room
  have b: "\<exists>s'. freeNode (Some 0) 0 cloned_store = (Done ftStored, s') \<and> node_at s' 0 = zero_node"
    by blast
  from o t a b show ?thesis by blast
qed


section \<open>Clone isolation\<close>

subsection \<open>What a write path may touch\<close>

text \<open>
  A context \<open>c\<close> may write a node only when the node is its own or has no owner (a node
  fresh from \<open>newNode\<close> or from the free list). \<open>kept c t s0 s\<close> says what a write path of
  tree \<open>t\<close> with context \<open>c\<close>, started in \<open>s0\<close>, leaves alone on the way to \<open>s\<close>: every node
  that was not \<open>c\<close>'s in \<open>s0\<close>, and every other tree. \<open>tr I m Q\<close> is the triple: \<open>m\<close> keeps
  \<open>I\<close>, whatever its outcome, and a value it returns satisfies \<open>Q\<close>.
\<close>

definition mine :: "ctxPtr \<Rightarrow> ('k, 'v) store \<Rightarrow> nodePtr \<Rightarrow> bool" where
  "mine c s a = (cowCtx (node_at s a) = Some c \<or> cowCtx (node_at s a) = None)"

definition kept :: "ctxPtr \<Rightarrow> treePtr \<Rightarrow> ('k, 'v) store \<Rightarrow> ('k, 'v) store \<Rightarrow> bool" where
  "kept c t s0 s =
     ((\<forall>a. \<not> mine c s0 a \<longrightarrow> node_at s a = node_at s0 a) \<and>
      (\<forall>a. mine c s0 a \<longrightarrow> mine c s a) \<and>
      (\<forall>fl. \<forall>a\<in>set (nodes (freeList_at s fl)). mine c s0 a) \<and>
      (\<forall>a. node_next s \<le> a \<longrightarrow> mine c s0 a) \<and>
      (\<forall>u. u \<noteq> t \<longrightarrow> tree_at s u = tree_at s0 u) \<and>
      tree_cowCtx (tree_at s t) = c)"

definition tr :: "(('k, 'v) store \<Rightarrow> bool) \<Rightarrow> ('a, ('k, 'v) store) prog \<Rightarrow> ('a \<Rightarrow> bool) \<Rightarrow> bool" where
  "tr I m Q = (\<forall>s r s'. I s \<and> m s = (r, s') \<longrightarrow> I s' \<and> (\<forall>x. r = Done x \<longrightarrow> Q x))"

lemma tr_ret: "Q x \<Longrightarrow> tr I (ret x) Q"
  by (simp add: tr_def ret_def)

lemma tr_panic: "tr I panic Q"
  by (simp add: tr_def panic_def)

lemma tr_out_of_fuel: "tr I out_of_fuel Q"
  by (simp add: tr_def out_of_fuel_def)

lemma tr_bnd:
  assumes "tr I m P" and "\<And>x. P x \<Longrightarrow> tr I (f x) Q"
  shows "tr I (bnd m f) Q"
  unfolding tr_def
proof (intro allI impI)
  fix s r s' assume a: "I s \<and> bnd m f s = (r, s')"
  obtain r1 s1 where m: "m s = (r1, s1)" by (cases "m s")
  from assms(1) a m have I1: "I s1" and P: "\<forall>x. r1 = Done x \<longrightarrow> P x"
    by (auto simp: tr_def)
  show "I s' \<and> (\<forall>x. r = Done x \<longrightarrow> Q x)"
  proof (cases r1)
    case (Done x)
    with a m have "f x s1 = (r, s')" by (simp add: bnd_def)
    with assms(2)[of x] P Done I1 show ?thesis by (auto simp: tr_def)
  next
    case Panic
    with a m I1 show ?thesis by (auto simp: bnd_def)
  next
    case OutOfFuel
    with a m I1 show ?thesis by (auto simp: bnd_def)
  qed
qed

lemma tr_weaken: "tr I m P \<Longrightarrow> (\<And>x. P x \<Longrightarrow> Q x) \<Longrightarrow> tr I m Q"
  by (auto simp: tr_def)

lemma tr_gets: "(\<And>s. I s \<Longrightarrow> Q (g s)) \<Longrightarrow> tr I (gets g) Q"
  by (auto simp: tr_def gets_def)

lemma tr_modify: "(\<And>s. I s \<Longrightarrow> I (g s)) \<Longrightarrow> tr I (modify g) (\<lambda>_. True)"
  by (auto simp: tr_def modify_def)

lemma tr_lift: "tr I (lift x) (\<lambda>_. True)"
  by (auto simp: tr_def lift_def panic_def ret_def split: option.splits)

text \<open>Rules for a step followed by the rest of the program.\<close>

lemma tr_bnd_any: "tr I m (\<lambda>_. True) \<Longrightarrow> (\<And>x. tr I (f x) Q) \<Longrightarrow> tr I (bnd m f) Q"
  by (rule tr_bnd)

lemma tr_bnd_lift: "(\<And>x. tr I (f x) Q) \<Longrightarrow> tr I (bnd (lift v) f) Q"
  by (rule tr_bnd[OF tr_lift])

lemma tr_bnd_gets: "(\<And>x. tr I (f x) Q) \<Longrightarrow> tr I (bnd (gets g) f) Q"
  by (rule tr_bnd[OF tr_gets[where Q = "\<lambda>_. True"]]) simp_all

lemma tr_bnd_assoc: "tr I (bnd m (\<lambda>x. bnd (g x) f)) Q \<Longrightarrow> tr I (bnd (bnd m g) f) Q"
proof -
  have "bnd (bnd m g) f = bnd m (\<lambda>x. bnd (g x) f)"
    by (auto simp: bnd_def fun_eq_iff split: prod.splits outcome.splits)
  then show "tr I (bnd m (\<lambda>x. bnd (g x) f)) Q \<Longrightarrow> tr I (bnd (bnd m g) f) Q" by simp
qed

lemma tr_bnd_if:
  "(b \<Longrightarrow> tr I (bnd m1 f) Q) \<Longrightarrow> (\<not> b \<Longrightarrow> tr I (bnd m2 f) Q) \<Longrightarrow>
   tr I (bnd (if b then m1 else m2) f) Q"
  by simp

lemma tr_if: "(b \<Longrightarrow> tr I m1 Q) \<Longrightarrow> (\<not> b \<Longrightarrow> tr I m2 Q) \<Longrightarrow> tr I (if b then m1 else m2) Q"
  by simp


named_theorems tr_intro

lemmas [tr_intro] = tr_ret tr_panic tr_out_of_fuel tr_bnd_lift tr_bnd_assoc tr_bnd_if tr_if

lemma tr_bnd_getRecords [tr_intro]: "(\<And>x. tr I (f x) Q) \<Longrightarrow> tr I (bnd (getRecords n) f) Q"
  unfolding getRecords_def by (rule tr_bnd_gets)

lemma tr_bnd_getChildren [tr_intro]: "(\<And>x. tr I (f x) Q) \<Longrightarrow> tr I (bnd (getChildren n) f) Q"
  unfolding getChildren_def by (rule tr_bnd_gets)

lemma tr_bnd_getTree [tr_intro]: "(\<And>x. tr I (f x) Q) \<Longrightarrow> tr I (bnd (getTree n) f) Q"
  unfolding getTree_def by (rule tr_bnd_gets)

lemma kept_setRecords:
  "mine c s0 n \<Longrightarrow> tr (kept c t s0) (setRecords n rs) (\<lambda>_. True)"
  unfolding setRecords_def
  by (rule tr_modify) (auto simp: kept_def mine_def)

lemma kept_setChildren:
  "mine c s0 n \<Longrightarrow> tr (kept c t s0) (setChildren n cs) (\<lambda>_. True)"
  unfolding setChildren_def
  by (rule tr_modify) (auto simp: kept_def mine_def)

lemma kept_setCowCtx:
  "mine c s0 n \<Longrightarrow> k = None \<or> k = Some c \<Longrightarrow> tr (kept c t s0) (setCowCtx n k) (\<lambda>_. True)"
  unfolding setCowCtx_def
  by (rule tr_modify) (auto simp: kept_def mine_def)

lemma kept_setRoot: "tr (kept c t s0) (setRoot t r) (\<lambda>_. True)"
  unfolding setRoot_def
  by (rule tr_modify) (auto simp: kept_def mine_def)

lemma kept_setLength: "tr (kept c t s0) (setLength t l) (\<lambda>_. True)"
  unfolding setLength_def
  by (rule tr_modify) (auto simp: kept_def mine_def)

lemma kept_getCowCtx:
  "mine c s0 n \<Longrightarrow> tr (kept c t s0) (getCowCtx n) (\<lambda>k. k = None \<or> k = Some c)"
  unfolding getCowCtx_def
  by (rule tr_gets) (auto simp: kept_def mine_def)

lemma kept_newNode:
  assumes "k = None \<or> k = Some c"
  shows "tr (kept c t s0) (newNode k) (mine c s0)"
proof (cases k)
  case None
  then show ?thesis by (simp add: newNode_def tr_panic)
next
  case (Some c')
  with assms have k: "k = Some c" by simp
  show ?thesis
    unfolding tr_def
  proof (intro allI impI)
    fix s r s' assume a: "kept c t s0 s \<and> newNode k s = (r, s')"
    then have K: "kept c t s0 s" by simp
    show "kept c t s0 s' \<and> (\<forall>x. r = Done x \<longrightarrow> mine c s0 x)"
    proof (cases "nodes (freeList_at s (ctx_at s c)) = []")
      case True
      with a k have r: "r = Done (node_next s)" and
        s': "s' = s\<lparr>node_at := (node_at s)(node_next s := zero_node\<lparr>cowCtx := Some c\<rparr>),
                   node_next := Suc (node_next s)\<rparr>"
        by (auto simp: newNode_def freeList_newNode_def setCowCtx_def prog_simps bnd_def
            gets_def modify_def ret_def Let_def)
      from K have m: "mine c s0 (node_next s)" by (simp add: kept_def)
      with K show ?thesis unfolding r s' by (auto simp: kept_def mine_def)
    next
      case False
      let ?l = "freeList_at s (ctx_at s c)"
      let ?n = "last (nodes ?l)"
      from False a k have r: "r = Done ?n" and
        s': "s' = s\<lparr>freeList_at := (freeList_at s)(ctx_at s c := ?l\<lparr>nodes := butlast (nodes ?l)\<rparr>),
                   node_at := (node_at s)(?n := (node_at s ?n)\<lparr>cowCtx := Some c\<rparr>)\<rparr>"
        by (auto simp: newNode_def freeList_newNode_def setCowCtx_def prog_simps bnd_def
            gets_def modify_def ret_def Let_def)
      from False have "?n \<in> set (nodes ?l)" by simp
      with K have m: "mine c s0 ?n" by (auto simp: kept_def)
      have fl: "\<forall>fl. \<forall>a\<in>set (nodes (freeList_at s' fl)). mine c s0 a"
      proof (intro allI ballI)
        fix fl a assume "a \<in> set (nodes (freeList_at s' fl))"
        then have "a \<in> set (nodes (freeList_at s fl))"
          unfolding s' by (auto dest: in_set_butlastD split: if_splits)
        with K show "mine c s0 a" by (simp add: kept_def)
      qed
      have n1: "\<forall>a. \<not> mine c s0 a \<longrightarrow> node_at s' a = node_at s0 a"
        using K m unfolding s' by (auto simp: kept_def)
      have n2: "\<forall>a. mine c s0 a \<longrightarrow> mine c s' a"
        using K unfolding s' by (auto simp: kept_def mine_def)
      have n3: "\<forall>a. node_next s' \<le> a \<longrightarrow> mine c s0 a"
        using K unfolding s' by (simp add: kept_def)
      have n4: "(\<forall>u. u \<noteq> t \<longrightarrow> tree_at s' u = tree_at s0 u) \<and> tree_cowCtx (tree_at s' t) = c"
        using K unfolding s' by (simp add: kept_def)
      from fl n1 n2 n3 n4 m show ?thesis unfolding r by (simp add: kept_def)
    qed
  qed
qed

lemma kept_not_mine_now:
  "kept c t s0 s \<Longrightarrow> mine c s a \<Longrightarrow> mine c s0 a"
  by (auto simp: kept_def mine_def)

lemma kept_mutableFor:
  assumes "k = None \<or> k = Some c"
  shows "tr (kept c t s0) (mutableFor n k) (mine c s0)"
  unfolding tr_def
proof (intro allI impI)
  fix s r s' assume a: "kept c t s0 s \<and> mutableFor n k s = (r, s')"
  then have K: "kept c t s0 s" by simp
  show "kept c t s0 s' \<and> (\<forall>x. r = Done x \<longrightarrow> mine c s0 x)"
  proof (cases "cowCtx (node_at s n) = k")
    case True
    with a have "r = Done n" "s' = s"
      by (auto simp: mutableFor_def getCowCtx_def prog_simps)
    moreover from True assms have "mine c s n" by (auto simp: mine_def)
    ultimately show ?thesis using K kept_not_mine_now[OF K] by simp
  next
    case False
    have rest: "tr (kept c t s0)
          (bnd (newNode k) (\<lambda>newN.
           bnd (getRecords n) (\<lambda>rs.
           bnd (setRecords newN rs) (\<lambda>_.
           bnd (getChildren n) (\<lambda>cs.
           bnd (setChildren newN cs) (\<lambda>_.
           ret newN)))))) (mine c s0)"
      by (rule tr_bnd[OF kept_newNode[OF assms]])
         (auto intro!: tr_intro tr_bnd[OF kept_setRecords] tr_bnd[OF kept_setChildren])
    from False a have "bnd (newNode k) (\<lambda>newN.
           bnd (getRecords n) (\<lambda>rs.
           bnd (setRecords newN rs) (\<lambda>_.
           bnd (getChildren n) (\<lambda>cs.
           bnd (setChildren newN cs) (\<lambda>_.
           ret newN))))) s = (r, s')"
      by (simp add: mutableFor_def getCowCtx_def prog_simps)
    with rest K show ?thesis by (auto simp: tr_def)
  qed
qed

lemma kept_freeNode:
  assumes "k = None \<or> k = Some c"
  shows "tr (kept c t s0) (freeNode k n) (\<lambda>_. True)"
  unfolding tr_def
proof (intro allI impI)
  fix s r s' assume a: "kept c t s0 s \<and> freeNode k n s = (r, s')"
  then have K: "kept c t s0 s" by simp
  show "kept c t s0 s' \<and> (\<forall>x. r = Done x \<longrightarrow> True)"
  proof (cases "cowCtx (node_at s n) = k")
    case False
    with a have "s' = s" by (auto simp: freeNode_def getCowCtx_def prog_simps)
    with K show ?thesis by simp
  next
    case True
    with assms have "mine c s n" by (auto simp: mine_def)
    then have m: "mine c s0 n" by (rule kept_not_mine_now[OF K])
    let ?s1 = "s\<lparr>node_at := (node_at s)(n := (node_at s n)\<lparr>records := [], children := [], cowCtx := None\<rparr>)\<rparr>"
    have K1: "kept c t s0 ?s1" using K m by (auto simp: kept_def mine_def)
    show ?thesis
    proof (cases k)
      case None
      with a True have "s' = ?s1"
        by (auto simp: freeNode_def getCowCtx_def getRecords_def getChildren_def setRecords_def
            setChildren_def setCowCtx_def slice_truncate_def prog_simps)
      with K1 show ?thesis by simp
    next
      case (Some c')
      with assms have kc: "k = Some c" by simp
      with a True have "s' = ?s1 \<or>
         s' = ?s1\<lparr>freeList_at := (freeList_at ?s1)(ctx_at ?s1 c :=
                (freeList_at ?s1 (ctx_at ?s1 c))\<lparr>nodes := nodes (freeList_at ?s1 (ctx_at ?s1 c)) @ [n]\<rparr>)\<rparr>"
        by (auto simp: freeNode_def getCowCtx_def getRecords_def getChildren_def setRecords_def
            setChildren_def setCowCtx_def slice_truncate_def prog_simps bnd_freeList_freeNode
            split: if_splits)
      then show ?thesis
      proof
        assume "s' = ?s1" with K1 show ?thesis by simp
      next
        assume s': "s' = ?s1\<lparr>freeList_at := (freeList_at ?s1)(ctx_at ?s1 c :=
                (freeList_at ?s1 (ctx_at ?s1 c))\<lparr>nodes := nodes (freeList_at ?s1 (ctx_at ?s1 c)) @ [n]\<rparr>)\<rparr>"
        from K1 m show ?thesis unfolding s' by (auto simp: kept_def mine_def)
      qed
    qed
  qed
qed


lemma kb_setRecords [tr_intro]:
  "mine c s0 n \<Longrightarrow> tr (kept c t s0) (f ()) Q \<Longrightarrow> tr (kept c t s0) (bnd (setRecords n rs) f) Q"
  by (rule tr_bnd[OF kept_setRecords]) simp_all

lemma kb_setChildren [tr_intro]:
  "mine c s0 n \<Longrightarrow> tr (kept c t s0) (f ()) Q \<Longrightarrow> tr (kept c t s0) (bnd (setChildren n cs) f) Q"
  by (rule tr_bnd[OF kept_setChildren]) simp_all

lemma kb_setRoot [tr_intro]:
  "tr (kept c t s0) (f ()) Q \<Longrightarrow> tr (kept c t s0) (bnd (setRoot t r) f) Q"
  by (rule tr_bnd[OF kept_setRoot]) simp_all

lemma kb_setLength [tr_intro]:
  "tr (kept c t s0) (f ()) Q \<Longrightarrow> tr (kept c t s0) (bnd (setLength t l) f) Q"
  by (rule tr_bnd[OF kept_setLength]) simp_all

lemma kb_getCowCtx [tr_intro]:
  "mine c s0 n \<Longrightarrow> (\<And>k. k = None \<or> k = Some c \<Longrightarrow> tr (kept c t s0) (f k) Q) \<Longrightarrow>
   tr (kept c t s0) (bnd (getCowCtx n) f) Q"
  by (rule tr_bnd[OF kept_getCowCtx])

lemma kb_newNode [tr_intro]:
  "k = None \<or> k = Some c \<Longrightarrow> (\<And>x. mine c s0 x \<Longrightarrow> tr (kept c t s0) (f x) Q) \<Longrightarrow>
   tr (kept c t s0) (bnd (newNode k) f) Q"
  by (rule tr_bnd[OF kept_newNode])

lemma kb_mutableFor [tr_intro]:
  "k = None \<or> k = Some c \<Longrightarrow> (\<And>x. mine c s0 x \<Longrightarrow> tr (kept c t s0) (f x) Q) \<Longrightarrow>
   tr (kept c t s0) (bnd (mutableFor n k) f) Q"
  by (rule tr_bnd[OF kept_mutableFor])

lemma kb_freeNode [tr_intro]:
  "k = None \<or> k = Some c \<Longrightarrow> (\<And>x. tr (kept c t s0) (f x) Q) \<Longrightarrow>
   tr (kept c t s0) (bnd (freeNode k n) f) Q"
  by (rule tr_bnd[OF kept_freeNode]) simp_all

lemma kept_mutableChild:
  "mine c s0 n \<Longrightarrow> tr (kept c t s0) (mutableChild n i) (mine c s0)"
  unfolding mutableChild_def
  by (auto intro!: tr_intro)

lemma kb_mutableChild [tr_intro]:
  "mine c s0 n \<Longrightarrow> (\<And>x. mine c s0 x \<Longrightarrow> tr (kept c t s0) (f x) Q) \<Longrightarrow>
   tr (kept c t s0) (bnd (mutableChild n i) f) Q"
  by (rule tr_bnd[OF kept_mutableChild])

lemma kept_node_split:
  "mine c s0 n \<Longrightarrow> tr (kept c t s0) (node_split n i) (\<lambda>(r, next). mine c s0 next)"
  unfolding node_split_def
  by (auto intro!: tr_intro kept_setChildren simp: bnd_ret)

lemma kb_node_split [tr_intro]:
  "mine c s0 n \<Longrightarrow> (\<And>r next. mine c s0 next \<Longrightarrow> tr (kept c t s0) (f (r, next)) Q) \<Longrightarrow>
   tr (kept c t s0) (bnd (node_split n i) f) Q"
  by (rule tr_bnd[OF kept_node_split]) auto

lemma kept_maybeSplitChild:
  "mine c s0 n \<Longrightarrow> tr (kept c t s0) (maybeSplitChild n i m) (\<lambda>_. True)"
  unfolding maybeSplitChild_def
  by (auto intro!: tr_intro)

lemma kb_maybeSplitChild [tr_intro]:
  "mine c s0 n \<Longrightarrow> (\<And>x. tr (kept c t s0) (f x) Q) \<Longrightarrow>
   tr (kept c t s0) (bnd (maybeSplitChild n i m) f) Q"
  by (rule tr_bnd[OF kept_maybeSplitChild]) simp_all

lemma kept_node_insert:
  "mine c s0 n \<Longrightarrow> tr (kept c t s0) (node_insert fuel n record maxR) (\<lambda>_. True)"
proof (induction fuel arbitrary: n)
  case 0
  show ?case by (simp add: tr_out_of_fuel)
next
  case (Suc fuel)
  show ?case
    using Suc.prems
    by (auto intro!: tr_intro Suc.IH split: prod.split bool.split)
qed


lemma kept_remove_both:
  "(\<forall>n record typ. mine c s0 n \<longrightarrow>
      tr (kept c t s0) (node_remove fuel n record minR typ) (\<lambda>_. True)) \<and>
   (\<forall>n i record typ. mine c s0 n \<longrightarrow>
      tr (kept c t s0) (growChildAndRemove fuel n i record minR typ) (\<lambda>_. True))"
proof (induction fuel)
  case 0
  show ?case by (simp add: tr_out_of_fuel)
next
  case (Suc fuel)
  from Suc.IH have IH1:
    "\<And>n record typ. mine c s0 n \<Longrightarrow>
       tr (kept c t s0) (node_remove fuel n record minR typ) (\<lambda>_. True)"
    and IH2:
    "\<And>n i record typ. mine c s0 n \<Longrightarrow>
       tr (kept c t s0) (growChildAndRemove fuel n i record minR typ) (\<lambda>_. True)"
    by blast+
  have kb_remove: "\<And>n record typ f Q. mine c s0 n \<Longrightarrow> (\<And>x. tr (kept c t s0) (f x) Q) \<Longrightarrow>
      tr (kept c t s0) (bnd (node_remove fuel n record minR typ) f) Q"
    by (rule tr_bnd[OF IH1]) simp_all
  have A: "\<And>n record typ. mine c s0 n \<Longrightarrow>
       tr (kept c t s0) (node_remove (Suc fuel) n record minR typ) (\<lambda>_. True)"
    by (auto intro!: tr_intro IH1 IH2 kb_remove simp: bnd_ret bnd_panic
        split: prod.split toRemove.split sum.split option.split)
  have B: "\<And>n i record typ. mine c s0 n \<Longrightarrow>
       tr (kept c t s0) (growChildAndRemove (Suc fuel) n i record minR typ) (\<lambda>_. True)"
    by (auto intro!: tr_intro IH1 kept_setChildren simp: bnd_ret bnd_panic Let_def
        split: prod.split)
  from A B show ?case by blast
qed

lemma kept_node_remove:
  "mine c s0 n \<Longrightarrow> tr (kept c t s0) (node_remove fuel n record minR typ) (\<lambda>_. True)"
  using kept_remove_both[of c s0 t fuel minR] by blast

lemma kept_Insert:
  "tr (kept c t s0) (Insert fuel t record) (\<lambda>_. True)"
  unfolding Insert_def
  apply (cases "record")
   apply (simp add: tr_panic)
  apply simp
  apply (rule tr_bnd[where P = "\<lambda>b. tree_cowCtx b = c"])
   apply (simp add: getTree_def)
   apply (rule tr_gets)
   apply (simp add: kept_def)
  apply (auto intro!: tr_intro kept_node_insert tr_bnd[OF kept_node_insert] simp: bnd_ret
      split: option.split prod.split)
  done

lemma kept_deleteRecord:
  "tr (kept c t s0) (deleteRecord fuel t record typ) (\<lambda>_. True)"
  unfolding deleteRecord_def
  apply (rule tr_bnd[where P = "\<lambda>b. tree_cowCtx b = c"])
   apply (simp add: getTree_def)
   apply (rule tr_gets)
   apply (simp add: kept_def)
  apply (auto intro!: tr_intro tr_bnd[OF kept_node_remove]
      simp: bnd_ret split: option.split prod.split)
  done

subsection \<open>What an iteration reads\<close>

text \<open>
  \<open>reach s n\<close> is the set of nodes under \<open>n\<close>. An iteration from \<open>n\<close> reads these nodes
  only: two stores that agree on them give the same iteration.
\<close>

declare node_iterate.simps [simp del] ascend_loop.simps [simp del] descend_loop.simps [simp del]

inductive_set reach :: "('k, 'v) store \<Rightarrow> nodePtr \<Rightarrow> nodePtr set" for s :: "('k, 'v) store" and n :: nodePtr where
  reach_self: "n \<in> reach s n"
| reach_child: "a \<in> reach s n \<Longrightarrow> b \<in> set (children (node_at s a)) \<Longrightarrow> b \<in> reach s n"

lemma reach_trans: "a \<in> reach s b \<Longrightarrow> b \<in> reach s n \<Longrightarrow> a \<in> reach s n"
  by (induction rule: reach.induct) (auto intro: reach.intros)

lemma reach_child_nth:
  "i < length (children (node_at s n)) \<Longrightarrow> a \<in> reach s (children (node_at s n) ! i) \<Longrightarrow> a \<in> reach s n"
  by (rule reach_trans[where b = "children (node_at s n) ! i"])
     (auto intro: reach.intros)

lemma obind_cong:
  "m = m' \<Longrightarrow> (\<And>x. m' = Done x \<Longrightarrow> f x = f' x) \<Longrightarrow> obind m f = obind m' f'"
  by (auto simp: obind_def split: outcome.splits)

lemma olift_index_Done [simp]:
  "olift (index cs i) = Done c \<longleftrightarrow> (i < length cs \<and> c = cs ! i)"
  by (auto simp: olift_def index_def)

lemma obind_olift_index:
  "obind (olift (index cs j)) f = (if j < length cs then f (cs ! j) else Panic)"
  by (simp add: obind_def olift_def index_def)

definition agree :: "('k, 'v) store \<Rightarrow> ('k, 'v) store \<Rightarrow> nodePtr \<Rightarrow> bool" where
  "agree s s' n = (\<forall>a\<in>reach s n. node_at s' a = node_at s a)"

lemma agree_self: "agree s s' n \<Longrightarrow> node_at s' n = node_at s n"
  by (auto simp: agree_def intro: reach.intros)

lemma agree_child:
  "agree s s' n \<Longrightarrow> i < length (children (node_at s n)) \<Longrightarrow> agree s s' (children (node_at s n) ! i)"
  by (auto simp: agree_def intro: reach_child_nth)

lemma ascend_loop_agree:
  fixes s :: "('k::linorder, 'v) store" and iter :: "('k, 'v, 'i) RecordIterator"
  assumes H: "\<And>m hit it incl. agree s s' m \<Longrightarrow>
      node_iterate fuel s' ascend start stop incl iter m hit it =
      node_iterate fuel s ascend start stop incl iter m hit it"
    and A: "agree s s' n"
  shows "ascend_loop fuel s' start stop includeStart iter n i hit it =
         ascend_loop fuel s start stop includeStart iter n i hit it"
proof (induction "length (records (node_at s n)) - i" arbitrary: i hit it includeStart)
  case 0
  then show ?case
    by (subst (2) ascend_loop.simps, subst ascend_loop.simps)
       (simp add: Let_def agree_self[OF A])
next
  case (Suc k)
  note N = agree_self[OF A]
  have L: "\<And>hit1 it1 incl. ascend_loop fuel s' start stop incl iter n (Suc i) hit1 it1 =
        ascend_loop fuel s start stop incl iter n (Suc i) hit1 it1"
    using Suc.hyps(1)[of "Suc i"] Suc.hyps(2) by simp
  have C: "\<And>j hit1 it1 incl. j < length (children (node_at s n)) \<Longrightarrow>
        node_iterate fuel s' ascend start stop incl iter (children (node_at s n) ! j) hit1 it1 =
        node_iterate fuel s ascend start stop incl iter (children (node_at s n) ! j) hit1 it1"
    using H agree_child[OF A] by blast
  show ?case
    apply (subst (2) ascend_loop.simps)
    apply (subst ascend_loop.simps)
    unfolding Let_def N
    by (simp add: C L obind_olift_index cong: obind_cong if_cong)
qed

lemma descend_loop_agree:
  fixes s :: "('k::linorder, 'v) store" and iter :: "('k, 'v, 'i) RecordIterator"
  assumes H: "\<And>m hit it incl. agree s s' m \<Longrightarrow>
      node_iterate fuel s' descend start stop incl iter m hit it =
      node_iterate fuel s descend start stop incl iter m hit it"
    and A: "agree s s' n"
  shows "descend_loop fuel s' start stop includeStart iter n i hit it =
         descend_loop fuel s start stop includeStart iter n i hit it"
proof (induction i arbitrary: hit it includeStart)
  case 0
  show ?case by (simp add: descend_loop.simps)
next
  case (Suc i)
  note N = agree_self[OF A]
  have C: "\<And>j hit1 it1 incl. j < length (children (node_at s n)) \<Longrightarrow>
        node_iterate fuel s' descend start stop incl iter (children (node_at s n) ! j) hit1 it1 =
        node_iterate fuel s descend start stop incl iter (children (node_at s n) ! j) hit1 it1"
    using H agree_child[OF A] by blast
  show ?case
    unfolding descend_loop.simps Let_def N
    by (simp add: C Suc.IH obind_olift_index cong: obind_cong if_cong)
qed

lemma node_iterate_agree:
  fixes s :: "('k::linorder, 'v) store" and iter :: "('k, 'v, 'i) RecordIterator"
  shows "agree s s' n \<Longrightarrow>
     node_iterate fuel s' dir start stop includeStart iter n hit it =
     node_iterate fuel s dir start stop includeStart iter n hit it"
proof (induction fuel arbitrary: n hit it dir includeStart)
  case 0
  show ?case by (simp add: node_iterate.simps)
next
  case (Suc fuel)
  note A = Suc.prems
  note N = agree_self[OF A]
  have C: "\<And>j hit1 it1 d. j < length (children (node_at s n)) \<Longrightarrow>
        node_iterate fuel s' d start stop includeStart iter (children (node_at s n) ! j) hit1 it1 =
        node_iterate fuel s d start stop includeStart iter (children (node_at s n) ! j) hit1 it1"
    using Suc.IH agree_child[OF A] by blast
  have LA: "\<And>k. ascend_loop fuel s' start stop includeStart iter n k hit it =
                 ascend_loop fuel s start stop includeStart iter n k hit it"
    by (rule ascend_loop_agree[OF Suc.IH A])
  have LD: "\<And>k. descend_loop fuel s' start stop includeStart iter n k hit it =
                 descend_loop fuel s start stop includeStart iter n k hit it"
    by (rule descend_loop_agree[OF Suc.IH A])
  show ?case
    unfolding node_iterate.simps Let_def N LA LD
    by (cases dir) (simp_all add: C obind_olift_index cong: obind_cong if_cong)
qed

subsection \<open>Sequences of mutations\<close>

text \<open>
  A mutation is one call of \<open>Insert\<close>, \<open>Delete\<close>, \<open>DeleteMin\<close> or \<open>DeleteMax\<close>, here with the
  fuel it is given; \<open>mutate t ms s\<close> runs the calls \<open>ms\<close> on tree \<open>t\<close> one after the other,
  going on from the store each call leaves, whatever its outcome. \<open>store_ok\<close> holds of
  the stores the package builds: nodes on a free list and addresses not yet allocated
  have no owner, and every owner is an allocated context. \<open>tree_ok s t\<close>: \<open>t\<close> is
  allocated and every node under its root has an owner.
\<close>

datatype ('k, 'v) mutation =
  InsertOp "('k, 'v) Record option"
| DeleteOp "('k, 'v) Record option"
| DeleteMinOp
| DeleteMaxOp

fun apply_mutation ::
  "nat \<Rightarrow> treePtr \<Rightarrow> ('k::linorder, 'v) mutation \<Rightarrow> (('k, 'v) Record option, ('k, 'v) store) prog" where
  "apply_mutation fuel t (InsertOp r) = Insert fuel t r"
| "apply_mutation fuel t (DeleteOp r) = Delete fuel t r"
| "apply_mutation fuel t DeleteMinOp = DeleteMin fuel t"
| "apply_mutation fuel t DeleteMaxOp = DeleteMax fuel t"

fun mutate :: "treePtr \<Rightarrow> (nat \<times> ('k::linorder, 'v) mutation) list \<Rightarrow> ('k, 'v) store \<Rightarrow> ('k, 'v) store" where
  "mutate t [] s = s"
| "mutate t ((fuel, m) # ms) s = mutate t ms (snd (apply_mutation fuel t m s))"

definition store_ok :: "('k, 'v) store \<Rightarrow> bool" where
  "store_ok s =
     ((\<forall>fl. \<forall>a\<in>set (nodes (freeList_at s fl)). cowCtx (node_at s a) = None) \<and>
      (\<forall>a. node_next s \<le> a \<longrightarrow> cowCtx (node_at s a) = None) \<and>
      (\<forall>a c. cowCtx (node_at s a) = Some c \<longrightarrow> c < ctx_next s))"

definition tree_ok :: "('k, 'v) store \<Rightarrow> treePtr \<Rightarrow> bool" where
  "tree_ok s t =
     (t < tree_next s \<and>
      (case root (tree_at s t) of
         None \<Rightarrow> True
       | Some r \<Rightarrow> \<forall>a\<in>reach s r. cowCtx (node_at s a) \<noteq> None))"

lemma kept_apply_mutation:
  "tr (kept c t s0) (apply_mutation fuel t m) (\<lambda>_. True)"
  by (cases m) (simp_all add: kept_Insert kept_deleteRecord Delete_def DeleteMin_def DeleteMax_def)

lemma kept_mutate:
  "kept c t s0 s \<Longrightarrow> kept c t s0 (mutate t ms s)"
proof (induction ms arbitrary: s)
  case Nil
  then show ?case by simp
next
  case (Cons fm ms)
  obtain fuel m where fm: "fm = (fuel, m)" by (cases fm)
  obtain r s1 where a: "apply_mutation fuel t m s = (r, s1)" by (cases "apply_mutation fuel t m s")
  from kept_apply_mutation[of c t s0 fuel m] Cons.prems a have "kept c t s0 s1"
    by (auto simp: tr_def)
  from Cons.IH[OF this] show ?case by (simp add: fm a)
qed

lemma kept_refl:
  assumes "\<forall>fl. \<forall>a\<in>set (nodes (freeList_at s fl)). mine c s a"
    and "\<forall>a. node_next s \<le> a \<longrightarrow> mine c s a"
    and "tree_cowCtx (tree_at s t) = c"
  shows "kept c t s s"
  using assms by (simp add: kept_def)

lemma reach_eq:
  assumes "node_at s' = node_at s"
  shows "reach s' n = reach s n"
proof -
  have "\<And>a. a \<in> reach s' n \<Longrightarrow> a \<in> reach s n"
    by (erule reach.induct) (auto intro: reach.intros simp: assms)
  moreover have "\<And>a. a \<in> reach s n \<Longrightarrow> a \<in> reach s' n"
    by (erule reach.induct) (auto intro: reach.intros simp: assms[symmetric])
  ultimately show ?thesis by blast
qed

text \<open>The tree \<open>u\<close> is not touched when another tree \<open>t\<close>, whose context owns no node of \<open>u\<close>, is mutated.\<close>

lemma isolation:
  fixes s :: "('k::linorder, 'v) store" and iter :: "('k, 'v, 'i) RecordIterator"
  assumes K: "kept c t s s"
    and u: "u \<noteq> t"
    and R: "case root (tree_at s u) of None \<Rightarrow> True | Some r \<Rightarrow> \<forall>a\<in>reach s r. \<not> mine c s a"
  shows "Len (mutate t ms s) u = Len s u \<and>
         Ascend fuel (mutate t ms s) u iter it = Ascend fuel s u iter it \<and>
         Descend fuel (mutate t ms s) u iter it = Descend fuel s u iter it"
proof -
  let ?s' = "mutate t ms s"
  from kept_mutate[OF K] have K': "kept c t s ?s'" .
  with u have T: "tree_at ?s' u = tree_at s u" by (simp add: kept_def)
  show ?thesis
  proof (cases "root (tree_at s u)")
    case None
    with T show ?thesis by (simp add: Len_def Ascend_def Descend_def)
  next
    case (Some r)
    with R have "\<forall>a\<in>reach s r. \<not> mine c s a" by simp
    with K' have ag: "agree s ?s' r" by (auto simp: agree_def kept_def)
    have "node_iterate fuel ?s' ascend None None False iter r False it =
          node_iterate fuel s ascend None None False iter r False it"
      by (rule node_iterate_agree[OF ag])
    moreover have "node_iterate fuel ?s' descend None None False iter r False it =
          node_iterate fuel s descend None None False iter r False it"
      by (rule node_iterate_agree[OF ag])
    ultimately show ?thesis using T Some
      by (simp add: Len_def Ascend_def Descend_def)
  qed
qed

lemma Clone_result:
  "t \<noteq> tree_next s \<Longrightarrow>
   Clone t s = (Done (tree_next s),
     s\<lparr>ctx_at := (ctx_at s)(ctx_next s := ctx_at s (tree_cowCtx (tree_at s t)),
                            Suc (ctx_next s) := ctx_at s (tree_cowCtx (tree_at s t))),
       ctx_next := Suc (Suc (ctx_next s)),
       tree_at := (tree_at s)(t := (tree_at s t)\<lparr>tree_cowCtx := ctx_next s\<rparr>,
                              tree_next s := (tree_at s t)\<lparr>tree_cowCtx := Suc (ctx_next s)\<rparr>),
       tree_next := Suc (tree_next s)\<rparr>)"
  by (simp add: Clone_def getTree_def newContext_def newTree_def bnd_def gets_def modify_def ret_def
      fun_upd_twist)

text \<open>
  Claim C1. Let \<open>t2\<close> be the clone of tree \<open>t\<close>. Any sequence of \<open>Insert\<close>, \<open>Delete\<close>,
  \<open>DeleteMin\<close> and \<open>DeleteMax\<close> calls on \<open>t2\<close> leaves \<open>Len\<close> of \<open>t\<close> and what \<open>Ascend\<close> and
  \<open>Descend\<close> on \<open>t\<close> hand to any iterator unchanged, and any such sequence on \<open>t\<close> leaves
  \<open>Len\<close>, \<open>Ascend\<close> and \<open>Descend\<close> of \<open>t2\<close> unchanged.
\<close>

theorem clone_isolation:
  fixes s :: "('k::linorder, 'v) store" and iter :: "('k, 'v, 'i) RecordIterator"
  assumes ok: "store_ok s" "tree_ok s t"
    and cl: "Clone t s = (Done t2, s1)"
  shows "Len (mutate t2 ms s1) t = Len s1 t \<and>
         Ascend fuel (mutate t2 ms s1) t iter it = Ascend fuel s1 t iter it \<and>
         Descend fuel (mutate t2 ms s1) t iter it = Descend fuel s1 t iter it \<and>
         Len (mutate t ms s1) t2 = Len s1 t2 \<and>
         Ascend fuel (mutate t ms s1) t2 iter it = Ascend fuel s1 t2 iter it \<and>
         Descend fuel (mutate t ms s1) t2 iter it = Descend fuel s1 t2 iter it"
proof -
  let ?c1 = "ctx_next s" and ?c2 = "Suc (ctx_next s)"
  from ok(2) have tl: "t < tree_next s" by (simp add: tree_ok_def)
  then have tn: "t \<noteq> tree_next s" by simp
  note e = Clone_result[OF tn]
  from cl e have t2: "t2 = tree_next s"
    by (metis Pair_inject outcome.inject)
  from cl e have
    s1: "s1 = s\<lparr>ctx_at := (ctx_at s)(ctx_next s := ctx_at s (tree_cowCtx (tree_at s t)),
                            Suc (ctx_next s) := ctx_at s (tree_cowCtx (tree_at s t))),
       ctx_next := Suc (Suc (ctx_next s)),
       tree_at := (tree_at s)(t := (tree_at s t)\<lparr>tree_cowCtx := ctx_next s\<rparr>,
                              tree_next s := (tree_at s t)\<lparr>tree_cowCtx := Suc (ctx_next s)\<rparr>),
       tree_next := Suc (tree_next s)\<rparr>"
    by (metis Pair_inject)
  from tn t2 have ne: "t \<noteq> t2" by simp
  have N: "node_at s1 = node_at s" by (simp add: s1)
  have F: "freeList_at s1 = freeList_at s" "node_next s1 = node_next s" by (simp_all add: s1)
  have low: "\<And>a c. cowCtx (node_at s a) = Some c \<Longrightarrow> c < ctx_next s"
    using ok(1) by (auto simp: store_ok_def)
  have m1: "\<And>c. (\<forall>fl. \<forall>a\<in>set (nodes (freeList_at s1 fl)). mine c s1 a) \<and>
            (\<forall>a. node_next s1 \<le> a \<longrightarrow> mine c s1 a)"
    using ok(1) by (auto simp: store_ok_def mine_def N F)
  have r1: "root (tree_at s1 t) = root (tree_at s t)" "root (tree_at s1 t2) = root (tree_at s t)"
    using ne by (simp_all add: s1 t2)
  have c1: "tree_cowCtx (tree_at s1 t) = ?c1" "tree_cowCtx (tree_at s1 t2) = ?c2"
    using ne by (simp_all add: s1 t2)
  have K1: "kept ?c1 t s1 s1" using m1[of ?c1] c1 by (intro kept_refl) auto
  have K2: "kept ?c2 t2 s1 s1" using m1[of ?c2] c1 by (intro kept_refl) auto
  have R: "\<And>c. ctx_next s \<le> c \<Longrightarrow>
     (case root (tree_at s t) of None \<Rightarrow> True | Some r \<Rightarrow> \<forall>a\<in>reach s1 r. \<not> mine c s1 a)"
  proof -
    fix c assume c: "ctx_next s \<le> c"
    show "case root (tree_at s t) of None \<Rightarrow> True | Some r \<Rightarrow> \<forall>a\<in>reach s1 r. \<not> mine c s1 a"
    proof (cases "root (tree_at s t)")
      case None
      then show ?thesis by simp
    next
      case (Some r)
      with ok(2) have ow: "\<forall>a\<in>reach s r. cowCtx (node_at s a) \<noteq> None"
        by (simp add: tree_ok_def)
      have "\<forall>a\<in>reach s1 r. \<not> mine c s1 a"
      proof
        fix a assume "a \<in> reach s1 r"
        then have "a \<in> reach s r" by (simp add: reach_eq[OF N])
        with ow obtain k where k: "cowCtx (node_at s a) = Some k" by auto
        from low[OF k] c have "k \<noteq> c" by simp
        with k show "\<not> mine c s1 a" by (simp add: mine_def N)
      qed
      with Some show ?thesis by simp
    qed
  qed
  from isolation[OF K2 ne, of ms fuel iter it] R[of ?c2] r1
  have A: "Len (mutate t2 ms s1) t = Len s1 t \<and>
         Ascend fuel (mutate t2 ms s1) t iter it = Ascend fuel s1 t iter it \<and>
         Descend fuel (mutate t2 ms s1) t iter it = Descend fuel s1 t iter it"
    by simp
  from isolation[OF K1 ne[symmetric], of ms fuel iter it] R[of ?c1] r1
  have B: "Len (mutate t ms s1) t2 = Len s1 t2 \<and>
         Ascend fuel (mutate t ms s1) t2 iter it = Ascend fuel s1 t2 iter it \<and>
         Descend fuel (mutate t ms s1) t2 iter it = Descend fuel s1 t2 iter it"
    by simp
  from A B show ?thesis by blast
qed

text \<open>
  A store as \<open>New(WithDegree(2))\<close> and one \<open>Insert\<close> leave it: the tree at address 0 has the
  leaf node 0 as its root. Its clone gets address 1, and the store after \<open>Clone\<close> is
  \<open>cloned_store\<close>.
\<close>

definition shared_store :: "(nat, nat) store" where
  "shared_store =
     \<lparr>node_at = (\<lambda>_. zero_node)(0 := \<lparr>records = [(1, 1)], children = [], cowCtx = Some 0\<rparr>),
      node_next = 1,
      ctx_at = (\<lambda>_. 0), ctx_next = 1,
      freeList_at = (\<lambda>_. \<lparr>nodes = [], capacity = 0\<rparr>)(0 := \<lparr>nodes = [], capacity = 32\<rparr>),
      freeList_next = 1,
      tree_at = (\<lambda>_. \<lparr>degree = 0, tree_length = 0, root = None, tree_cowCtx = 0\<rparr>)
                  (0 := \<lparr>degree = 2, tree_length = 1, root = Some 0, tree_cowCtx = 0\<rparr>),
      tree_next = 1\<rparr>"

lemma reach_leaf: "children (node_at s r) = [] \<Longrightarrow> reach s r = {r}"
proof -
  assume l: "children (node_at s r) = []"
  have "\<And>a. a \<in> reach s r \<Longrightarrow> a = r"
    by (erule reach.induct) (auto simp: l)
  then show ?thesis by (auto intro: reach.intros)
qed

lemma obind_weak_cong: "m = m1 \<Longrightarrow> obind m f = obind m1 f"
  by simp

lemma Clone_shared_store: "Clone 0 shared_store = (Done 1, cloned_store)"
  by (simp add: Clone_result shared_store_def cloned_store_def fun_eq_iff)

lemma Len_cloned_store: "Len cloned_store 0 = 1 \<and> Len cloned_store 1 = 1"
  by (simp add: Len_def cloned_store_def)

lemma Ascend_cloned_store:
  "Ascend 3 cloned_store 0 collect [] = Done [(1, 1)] \<and>
   Ascend 3 cloned_store 1 collect [] = Done [(1, 1)]"
  by (simp add: cloned_store_def Ascend_def collect_def obind_def olift_def index_def
      node_iterate.simps ascend_loop.simps eval_nat_numeral
      cong: obind_weak_cong)

lemma Descend_cloned_store:
  "Descend 3 cloned_store 0 collect [] = Done [(1, 1)] \<and>
   Descend 3 cloned_store 1 collect [] = Done [(1, 1)]"
  by (simp add: cloned_store_def Descend_def collect_def obind_def olift_def index_def
      node_iterate.simps descend_loop.simps eval_nat_numeral
      cong: obind_weak_cong)

theorem clone_isolation_witness:
  "store_ok shared_store \<and> tree_ok shared_store 0 \<and>
   Clone 0 shared_store = (Done 1, cloned_store) \<and>
   Len (mutate 1 [(3, InsertOp (Some (2, 2))), (3, DeleteOp (Some (1, 1)))] cloned_store) 0 = 1 \<and>
   Ascend 3 (mutate 1 [(3, InsertOp (Some (2, 2))), (3, DeleteOp (Some (1, 1)))] cloned_store) 0
     collect [] = Done [(1, 1)] \<and>
   Descend 3 (mutate 1 [(3, InsertOp (Some (2, 2))), (3, DeleteOp (Some (1, 1)))] cloned_store) 0
     collect [] = Done [(1, 1)] \<and>
   Len (mutate 0 [(3, InsertOp (Some (2, 2))), (3, DeleteOp (Some (1, 1)))] cloned_store) 1 = 1 \<and>
   Ascend 3 (mutate 0 [(3, InsertOp (Some (2, 2))), (3, DeleteOp (Some (1, 1)))] cloned_store) 1
     collect [] = Done [(1, 1)] \<and>
   Descend 3 (mutate 0 [(3, InsertOp (Some (2, 2))), (3, DeleteOp (Some (1, 1)))] cloned_store) 1
     collect [] = Done [(1, 1)]"
proof -
  have ok1: "store_ok shared_store"
    by (auto simp: store_ok_def shared_store_def zero_node_def)
  have "children (node_at shared_store 0) = []" by (simp add: shared_store_def)
  then have "reach shared_store 0 = {0}" by (rule reach_leaf)
  then have ok2: "tree_ok shared_store 0"
    by (simp add: tree_ok_def) (simp add: shared_store_def)
  note i = clone_isolation[OF ok1 ok2 Clone_shared_store,
      of "[(3, InsertOp (Some (2, 2))), (3, DeleteOp (Some (1, 1)))]" 3 collect "[]"]
  from i Len_cloned_store Ascend_cloned_store Descend_cloned_store ok1 ok2 Clone_shared_store
  show ?thesis by simp
qed

end
